theory Spec2Isabelle
  imports Main
begin

section \<open>LatticeMap of KMCLib: a shallow embedding of latticemap.cpp\<close>

text \<open>
  The C++ type \<open>int\<close> has 32 bits. A value of it is modelled by a HOL \<open>int\<close>, and every
  addition, subtraction and multiplication of the source is followed by \<open>i32\<close>, which
  brings the result back into \<open>[INT_MIN, INT_MAX]\<close> the way the two's complement
  machine does. Everything else that the C++ code can do besides returning a value is a
  branch of the model: an exception thrown by the standard library and an undefined
  operation are values of \<open>error\<close>, and a loop that does not stop is the value \<open>None\<close>.
\<close>

subsection \<open>Machine integers\<close>

definition INT_MAX :: int where
  "INT_MAX = 2147483647"

definition INT_MIN :: int where
  "INT_MIN = - 2147483648"

definition i32 :: "int \<Rightarrow> int" where
  "i32 x = (x + 2147483648) mod 4294967296 - 2147483648"

subsection \<open>Errors and the result type\<close>

datatype error =
    AllocFailure      \<comment> \<open>\<open>std::vector\<close> asked for more than \<open>max_size()\<close> elements: a negative
                          \<open>int\<close> converted to \<open>size_t\<close> (\<open>std::length_error\<close> or \<open>std::bad_alloc\<close>)\<close>
  | DivisionByZero    \<comment> \<open>integer division by zero (undefined behaviour)\<close>
  | DivisionOverflow  \<comment> \<open>\<open>INT_MIN / -1\<close> (undefined behaviour)\<close>
  | OutOfBounds       \<comment> \<open>read or write outside a vector (undefined behaviour)\<close>

definition and_then :: "error + 'a \<Rightarrow> ('a \<Rightarrow> error + 'b) \<Rightarrow> error + 'b" where
  "and_then r f = (case r of Inl e \<Rightarrow> Inl e | Inr v \<Rightarrow> f v)"

text \<open>\<open>v[n]\<close> of a \<open>std::vector\<close>: unchecked in C++, an error value here.\<close>

definition at :: "'a list \<Rightarrow> nat \<Rightarrow> error + 'a" where
  "at xs n = (if n < length xs then Inr (xs ! n) else Inl OutOfBounds)"

text \<open>The C++ operator \<open>/\<close> on \<open>int\<close>: truncation towards zero.\<close>

definition c_div :: "int \<Rightarrow> int \<Rightarrow> error + int" where
  "c_div a b =
     (if b = 0 then Inl DivisionByZero
      else if a = INT_MIN \<and> b = - 1 then Inl DivisionOverflow
      else Inr (sgn a * sgn b * (\<bar>a\<bar> div \<bar>b\<bar>)))"

text \<open>
  The conversion to \<open>int\<close> of a \<open>double\<close> whose value is the integer \<open>p\<close>. Outside the
  range of \<open>int\<close> the conversion is undefined in C++; the value taken here, \<open>INT_MIN\<close>, is
  the one that the conversion instruction of x86-64 delivers.
\<close>

definition double_to_int :: "int \<Rightarrow> int" where
  "double_to_int p = (if INT_MIN \<le> p \<and> p \<le> INT_MAX then p else INT_MIN)"

text \<open>
  \<open>v.resize(n)\<close> and \<open>std::vector<int> v(n)\<close> with an \<open>int\<close> argument: the argument is
  converted to \<open>size_t\<close>, so a negative one asks for more than \<open>max_size()\<close> elements and
  the library throws. Otherwise the vector is cut, or filled up with zeros; memory for a
  size that is not negative is taken to be there.
\<close>

definition resize :: "int list \<Rightarrow> int \<Rightarrow> error + int list" where
  "resize v n =
     (if n < 0 then Inl AllocFailure
      else Inr (take (nat n) v @ replicate (nat n - length v) 0))"

text \<open>
  \<open>std::memcpy(dst + pos, src, n * sizeof(int))\<close> for vectors \<open>dst\<close> and \<open>src\<close>: the first
  \<open>n\<close> elements of \<open>src\<close> overwrite \<open>dst[pos .. pos + n)\<close>. A negative \<open>n\<close> (a huge
  \<open>size_t\<close>) or a range that leaves either vector is undefined.
\<close>

definition memcpy :: "int list \<Rightarrow> int \<Rightarrow> int list \<Rightarrow> int \<Rightarrow> error + int list" where
  "memcpy dst pos src n =
     (if n < 0 \<or> pos < 0 \<or> length dst < nat pos + nat n \<or> length src < nat n
      then Inl OutOfBounds
      else Inr (take (nat pos) dst @ take (nat n) src @ drop (nat pos + nat n) dst))"

subsection \<open>Data\<close>

record CellIndex =
  cell_i :: int
  cell_j :: int
  cell_k :: int

record LatticeMap =
  n_basis :: int
  repetitions :: "int list"
  periodic :: "bool list"

text \<open>
  The file-level \<open>static std::vector<int> tmp_cell_indices__\<close> is the only storage
  outside a \<open>LatticeMap\<close> object. It is shared by all objects and all calls.
\<close>

record globals =
  tmp_cell_indices :: "int list"

text \<open>
  \<open>indicesFromCell\<close> returns a reference, not a vector. The only object a returned
  reference can name is the global buffer; the value seen through it is the content of
  the buffer in the state in which it is read.
\<close>

datatype vec_ref = Ref_tmp_cell_indices

fun deref :: "globals \<Rightarrow> vec_ref \<Rightarrow> int list" where
  "deref g Ref_tmp_cell_indices = tmp_cell_indices g"

subsection \<open>Constructor\<close>

definition LatticeMap ::
  "int \<Rightarrow> int list \<Rightarrow> bool list \<Rightarrow> globals \<Rightarrow> error + (LatticeMap \<times> globals)" where
  "LatticeMap nb reps per g =
     and_then (resize (tmp_cell_indices g) nb)
       (\<lambda>buf. Inr (\<lparr>n_basis = nb, repetitions = reps, periodic = per\<rparr>,
                   g\<lparr>tmp_cell_indices := buf\<rparr>))"

subsection \<open>indicesFromCell\<close>

text \<open>The loop \<open>for (int l = 0; l < n_basis_; ++l) tmp_cell_indices__[l] = tmp3 + l;\<close>\<close>

function fill_loop :: "int \<Rightarrow> int \<Rightarrow> int \<Rightarrow> int list \<Rightarrow> error + int list" where
  "fill_loop l n tmp3 buf =
     (if l < n then
        (if 0 \<le> l \<and> nat l < length buf
         then fill_loop (i32 (l + 1)) n tmp3 (buf[nat l := i32 (tmp3 + l)])
         else Inl OutOfBounds)
      else Inr buf)"
  by pat_completeness auto

text \<open>
  The loop ends on every input: a counter within the vector either grows towards
  \<open>INT_MAX\<close> or wraps to a negative value, which is outside the vector.
\<close>

termination
proof (relation "measure (\<lambda>(l, n, tmp3, buf).
          if 0 \<le> l \<and> nat l < length buf
          then (if INT_MAX < l then 4294967298 else nat (INT_MAX - l) + 2) else 0)")
  show "wf (measure (\<lambda>(l, n, tmp3, buf).
          if 0 \<le> l \<and> nat l < length buf
          then (if INT_MAX < l then 4294967298 else nat (INT_MAX - l) + 2) else 0))" by simp
next
  fix l n :: int and tmp3 :: int and buf :: "int list"
  assume "l < n" "0 \<le> l \<and> nat l < length buf"
  then have a: "0 \<le> l" "nat l < length buf" by simp_all
  have r: "INT_MIN \<le> i32 (l + 1)" "i32 (l + 1) \<le> INT_MAX"
    by (simp_all add: i32_def INT_MIN_def INT_MAX_def)
  have e: "l < INT_MAX \<Longrightarrow> i32 (l + 1) = l + 1"
    using a(1) by (simp add: i32_def INT_MAX_def)
  have w: "l = INT_MAX \<Longrightarrow> i32 (l + 1) < 0" by (simp add: i32_def INT_MAX_def)
  consider "l < INT_MAX" | "l = INT_MAX" | "INT_MAX < l" by linarith
  then show "((i32 (l + 1), n, tmp3, buf[nat l := i32 (tmp3 + l)]), (l, n, tmp3, buf))
      \<in> measure (\<lambda>(l, n, tmp3, buf).
          if 0 \<le> l \<and> nat l < length buf
          then (if INT_MAX < l then 4294967298 else nat (INT_MAX - l) + 2) else 0)"
  proof cases
    case 1
    then show ?thesis using a e by (simp add: INT_MAX_def)
  next
    case 2
    then show ?thesis using a w by simp
  next
    case 3
    then show ?thesis using a r by (simp add: INT_MAX_def INT_MIN_def) arith
  qed
qed

declare fill_loop.simps [simp del]

definition indicesFromCell ::
  "LatticeMap \<Rightarrow> int \<Rightarrow> int \<Rightarrow> int \<Rightarrow> globals \<Rightarrow> error + (vec_ref \<times> globals)" where
  "indicesFromCell m i j k g =
     and_then (at (repetitions m) 1) (\<lambda>r1.
       let tmp1 = i32 (i32 (i * r1) + j) in
       and_then (at (repetitions m) 2) (\<lambda>r2.
         let tmp2 = i32 (i32 (tmp1 * r2) + k);
             tmp3 = i32 (tmp2 * n_basis m) in
         and_then (fill_loop 0 (n_basis m) tmp3 (tmp_cell_indices g)) (\<lambda>buf.
           Inr (Ref_tmp_cell_indices, g\<lparr>tmp_cell_indices := buf\<rparr>))))"

subsection \<open>indexToCell\<close>

text \<open>
  The two loops \<open>while (cmp < idx) { ++cell; cmp += factor; }\<close> that find \<open>cell_i\<close> and
  \<open>cell_j\<close>. With the factor zero they do not stop.
\<close>

partial_function (option) incr_loop :: "int \<Rightarrow> int \<Rightarrow> int \<Rightarrow> int \<Rightarrow> (int \<times> int) option" where
  "incr_loop factor idx cell cmp =
     (if cmp < idx then incr_loop factor idx (i32 (cell + 1)) (i32 (cmp + factor))
      else Some (cell, cmp))"

declare incr_loop.simps [code]

text \<open>The loop \<open>while (cell_k < idx_k) ++cell_k;\<close>\<close>

partial_function (option) k_loop :: "int \<Rightarrow> int \<Rightarrow> int option" where
  "k_loop idx_k c = (if c < idx_k then k_loop idx_k (i32 (c + 1)) else Some c)"

declare k_loop.simps [code]

definition indexToCell :: "LatticeMap \<Rightarrow> int \<Rightarrow> (error + CellIndex) option" where
  "indexToCell m index =
     (case c_div index (n_basis m) of
        Inl e \<Rightarrow> Some (Inl e)
      | Inr q \<Rightarrow>
         (let idx = i32 (q + 1) in
          (case at (repetitions m) 1 of
             Inl e \<Rightarrow> Some (Inl e)
           | Inr r1 \<Rightarrow>
              (case at (repetitions m) 2 of
                 Inl e \<Rightarrow> Some (Inl e)
               | Inr r2 \<Rightarrow>
                  (let factor_i = i32 (r1 * r2) in
                   (case incr_loop factor_i idx 0 factor_i of
                      None \<Rightarrow> None
                    | Some (ci_v, cmp_i) \<Rightarrow>
                       (let ci = i32 (ci_v * factor_i);
                            factor_j = r2;
                            idx_j = i32 (idx - ci) in
                        (case incr_loop factor_j idx_j 0 factor_j of
                           None \<Rightarrow> None
                         | Some (cj_v, cmp_j) \<Rightarrow>
                            (let cij = i32 (ci + i32 (cj_v * factor_j));
                                 idx_k = i32 (idx - cij) in
                             (case k_loop idx_k 1 of
                                None \<Rightarrow> None
                              | Some ck_v \<Rightarrow>
                                 Some (Inr \<lparr>cell_i = ci_v, cell_j = cj_v,
                                            cell_k = i32 (ck_v - 1)\<rparr>)))))))))))"

subsection \<open>neighbourIndices\<close>

text \<open>Results of code that contains such loops, and their sequencing.\<close>

definition then_do ::
  "(error + 'a) option \<Rightarrow> ('a \<Rightarrow> (error + 'b) option) \<Rightarrow> (error + 'b) option" where
  "then_do r f = (case r of None \<Rightarrow> None | Some (Inl e) \<Rightarrow> Some (Inl e) | Some (Inr v) \<Rightarrow> f v)"

text \<open>
  A loop \<open>for (int x = lo; x <= hi; ++x) body\<close> over a state; an error ends it. With
  \<open>hi = INT_MAX\<close> the test never fails and the loop does not stop.
\<close>

partial_function (option) for_loop ::
  "int \<Rightarrow> int \<Rightarrow> (int \<Rightarrow> 's \<Rightarrow> (error + 's) option) \<Rightarrow> 's \<Rightarrow> (error + 's) option" where
  "for_loop x hi body s =
     (if x \<le> hi then
        (case body x s of
           None \<Rightarrow> None
         | Some (Inl e) \<Rightarrow> Some (Inl e)
         | Some (Inr s') \<Rightarrow> for_loop (i32 (x + 1)) hi body s')
      else Some (Inr s))"

declare for_loop.simps [code]

text \<open>
  The block under the comment \<open>Handle periodicity\<close>, the same on each of the three axes
  \<open>a\<close>: one repetition count is added to a negative candidate, or subtracted from one
  that is too large, once.
\<close>

definition wrap_axis :: "LatticeMap \<Rightarrow> nat \<Rightarrow> int \<Rightarrow> error + int" where
  "wrap_axis m a x =
     and_then (at (periodic m) a) (\<lambda>p.
       if p then
         (if x < 0 then and_then (at (repetitions m) a) (\<lambda>r. Inr (i32 (x + r)))
          else and_then (at (repetitions m) a)
                 (\<lambda>r. if x \<ge> r then Inr (i32 (x - r)) else Inr x))
       else Inr x)"

text \<open>The test \<open>ii >= 0 && ii < repetitions_[a]\<close>; \<open>&&\<close> does not read the vector when
  \<open>ii\<close> is negative.\<close>

definition within_bounds :: "LatticeMap \<Rightarrow> nat \<Rightarrow> int \<Rightarrow> error + bool" where
  "within_bounds m a ii =
     (if ii \<ge> 0 then and_then (at (repetitions m) a) (\<lambda>r. Inr (ii < r)) else Inr False)"

text \<open>
  The state of the three nested loops. \<open>neighbours_ptr\<close> is not a field: it starts at
  \<open>&neighbours[0]\<close> and moves by \<open>n_basis_\<close> exactly when \<open>counter\<close> grows by
  \<open>n_basis_\<close>, so it points to \<open>neighbours[counter]\<close>. The two cannot part by a wrap of
  \<open>counter\<close>: the copy before the addition has succeeded, so \<open>counter + n_basis_\<close> is at
  most the size of \<open>neighbours\<close>, which is an \<open>int\<close>.
\<close>

record loop_state =
  neighbours :: "int list"
  counter :: int
  glob :: globals

text \<open>The innermost block: encode the cell, copy the buffer, advance.\<close>

definition copy_cell :: "LatticeMap \<Rightarrow> int \<Rightarrow> int \<Rightarrow> int \<Rightarrow> loop_state \<Rightarrow> error + loop_state" where
  "copy_cell m ii jj kk s =
     and_then (indicesFromCell m ii jj kk (glob s)) (\<lambda>(indices, g).
       and_then (memcpy (neighbours s) (counter s) (deref g indices) (n_basis m)) (\<lambda>nb.
         Inr \<lparr>neighbours = nb, counter = i32 (counter s + n_basis m), glob = g\<rparr>))"

definition k_body :: "LatticeMap \<Rightarrow> int \<Rightarrow> int \<Rightarrow> int \<Rightarrow> loop_state \<Rightarrow> error + loop_state" where
  "k_body m ii jj k s =
     and_then (wrap_axis m 2 k) (\<lambda>kk.
       and_then (within_bounds m 2 kk) (\<lambda>ok.
         if ok then copy_cell m ii jj kk s else Inr s))"

definition j_body ::
  "LatticeMap \<Rightarrow> CellIndex \<Rightarrow> int \<Rightarrow> int \<Rightarrow> int \<Rightarrow> loop_state \<Rightarrow> (error + loop_state) option" where
  "j_body m cell shells ii j s =
     then_do (Some (wrap_axis m 1 j)) (\<lambda>jj.
       then_do (Some (within_bounds m 1 jj)) (\<lambda>ok.
         if ok then for_loop (i32 (cell_k cell - shells)) (i32 (cell_k cell + shells))
                      (\<lambda>k s. Some (k_body m ii jj k s)) s
         else Some (Inr s)))"

definition i_body ::
  "LatticeMap \<Rightarrow> CellIndex \<Rightarrow> int \<Rightarrow> int \<Rightarrow> loop_state \<Rightarrow> (error + loop_state) option" where
  "i_body m cell shells i s =
     then_do (Some (wrap_axis m 0 i)) (\<lambda>ii.
       then_do (Some (within_bounds m 0 ii)) (\<lambda>ok.
         if ok then for_loop (i32 (cell_j cell - shells)) (i32 (cell_j cell + shells))
                      (j_body m cell shells ii) s
         else Some (Inr s)))"

text \<open>
  \<open>n_neighbours\<close> is \<open>std::pow(2*shells + 1, 3) * n_basis_\<close> converted to \<open>int\<close>:
  \<open>2*shells + 1\<close> is computed in \<open>int\<close>, the cube and the product in \<open>double\<close>. The model
  takes the product exactly; it is exact in \<open>double\<close> whenever it is an \<open>int\<close>, and
  outside the range of \<open>int\<close> it stays outside. \<open>&neighbours[0]\<close> needs a first element.
\<close>

definition neighbourIndices ::
  "LatticeMap \<Rightarrow> int \<Rightarrow> int \<Rightarrow> globals \<Rightarrow> (error + (int list \<times> globals)) option" where
  "neighbourIndices m index shells g =
     then_do (indexToCell m index) (\<lambda>cell.
       let n_neighbours = double_to_int (i32 (i32 (2 * shells) + 1) ^ 3 * n_basis m) in
       then_do (Some (resize [] n_neighbours)) (\<lambda>nbs.
         then_do (Some (at nbs 0)) (\<lambda>first.
           then_do
             (for_loop (i32 (cell_i cell - shells)) (i32 (cell_i cell + shells))
                (i_body m cell shells)
                \<lparr>neighbours = nbs, counter = 0, glob = g\<rparr>) (\<lambda>s.
             then_do (Some (resize (neighbours s) (counter s))) (\<lambda>res.
               Some (Inr (res, glob s)))))))"

subsection \<open>supersetNeighbourIndices\<close>

text \<open>
  Modelled from the spec: the default argument of \<open>neighbourIndices\<close>, which
  \<open>supersetNeighbourIndices\<close> relies on, is declared in latticemap.h, a file that is not
  among the sources; the specification gives \<open>shells = 1\<close>.
\<close>

definition default_shells :: int where
  "default_shells = 1"

text \<open>The loop over \<open>indices\<close>, pushing every neighbour list onto \<open>superset\<close>.\<close>

fun collect_loop ::
  "LatticeMap \<Rightarrow> int list \<Rightarrow> int list \<Rightarrow> globals \<Rightarrow> (error + (int list \<times> globals)) option" where
  "collect_loop m [] superset g = Some (Inr (superset, g))"
| "collect_loop m (index # rest) superset g =
     (case neighbourIndices m index default_shells g of
        None \<Rightarrow> None
      | Some (Inl e) \<Rightarrow> Some (Inl e)
      | Some (Inr (nbs, g')) \<Rightarrow> collect_loop m rest (superset @ nbs) g')"

text \<open>\<open>std::unique\<close> followed by the \<open>resize\<close>: of each run of equal neighbours the first
  stays.\<close>

fun unique :: "int list \<Rightarrow> int list" where
  "unique [] = []"
| "unique [x] = [x]"
| "unique (x # y # xs) = (if x = y then unique (y # xs) else x # unique (y # xs))"

definition supersetNeighbourIndices ::
  "LatticeMap \<Rightarrow> int list \<Rightarrow> globals \<Rightarrow> (error + (int list \<times> globals)) option" where
  "supersetNeighbourIndices m indices g =
     (case collect_loop m indices [] g of
        None \<Rightarrow> None
      | Some (Inl e) \<Rightarrow> Some (Inl e)
      | Some (Inr (superset, g')) \<Rightarrow> Some (Inr (unique (sort superset), g')))"

subsection \<open>The quantities of the specification\<close>

text \<open>
  A map as the specification's data model describes it: a positive basis count, three
  positive repetition counts and three flags.
\<close>

definition valid_map :: "LatticeMap \<Rightarrow> bool" where
  "valid_map m \<longleftrightarrow>
     0 < n_basis m \<and> length (repetitions m) = 3 \<and> length (periodic m) = 3 \<and>
     0 < repetitions m ! 0 \<and> 0 < repetitions m ! 1 \<and> 0 < repetitions m ! 2"

definition totalSites :: "LatticeMap \<Rightarrow> int" where
  "totalSites m = repetitions m ! 0 * repetitions m ! 1 * repetitions m ! 2 * n_basis m"

text \<open>The global buffer as the constructor of \<open>m\<close> leaves it: \<open>n_basis_\<close> elements.\<close>

definition buffer_fits :: "LatticeMap \<Rightarrow> globals \<Rightarrow> bool" where
  "buffer_fits m g \<longleftrightarrow> int (length (tmp_cell_indices g)) = n_basis m"

text \<open>
  The decoder in the words of the specification: \<open>cellLinear = index / basisCount\<close>,
  then \<open>k = cellLinear mod Rc\<close>, \<open>j = (cellLinear / Rc) mod Rb\<close> and
  \<open>i = cellLinear / (Rb*Rc)\<close>. It is compared with the loops of \<open>indexToCell\<close>.
\<close>

definition indexToCell_direct :: "LatticeMap \<Rightarrow> int \<Rightarrow> CellIndex" where
  "indexToCell_direct m index =
     (let cellLinear = index div n_basis m;
          Rb = repetitions m ! 1;
          Rc = repetitions m ! 2
      in \<lparr>cell_i = cellLinear div (Rb * Rc),
          cell_j = (cellLinear div Rc) mod Rb,
          cell_k = cellLinear mod Rc\<rparr>)"

text \<open>
  The mapping law of the specification: \<open>cellLinear = (i * Rb + j) * Rc + k\<close> and
  \<open>flatIndex = cellLinear * basisCount + l\<close>.
\<close>

definition flatIndex :: "LatticeMap \<Rightarrow> int \<Rightarrow> int \<Rightarrow> int \<Rightarrow> int \<Rightarrow> int" where
  "flatIndex m i j k l =
     (let cellLinear = (i * repetitions m ! 1 + j) * repetitions m ! 2 + k
      in cellLinear * n_basis m + l)"

text \<open>The \<open>basisCount\<close> flat indices of one cell, in the order of \<open>l\<close>.\<close>

definition cell_indices :: "LatticeMap \<Rightarrow> int \<Rightarrow> int \<Rightarrow> int \<Rightarrow> int list" where
  "cell_indices m i j k = map (\<lambda>l. flatIndex m i j k (int l)) [0..<nat (n_basis m)]"

subsection \<open>The enumeration, as lists\<close>

text \<open>
  What the three nested loops of \<open>neighbourIndices\<close> compute, written without state; the
  loops are proved to compute it. \<open>wrap_once\<close> is the value \<open>ii\<close> after the periodicity
  block, \<open>candidate\<close> adds the bounds test, \<open>survivors\<close> lists the coordinates that
  pass on one axis, in loop order, and \<open>enumeration\<close> is the content written to
  \<open>neighbours\<close>.
\<close>

definition wrap_once :: "bool \<Rightarrow> int \<Rightarrow> int \<Rightarrow> int" where
  "wrap_once p r x = (if p then (if x < 0 then x + r else if r \<le> x then x - r else x) else x)"

definition candidate :: "LatticeMap \<Rightarrow> nat \<Rightarrow> int \<Rightarrow> int option" where
  "candidate m a x =
     (let ii = wrap_once (periodic m ! a) (repetitions m ! a) x
      in if 0 \<le> ii \<and> ii < repetitions m ! a then Some ii else None)"

definition survivors :: "LatticeMap \<Rightarrow> nat \<Rightarrow> int \<Rightarrow> int \<Rightarrow> int list" where
  "survivors m a c s = List.map_filter (candidate m a) [c - s..c + s]"

definition enumeration :: "LatticeMap \<Rightarrow> CellIndex \<Rightarrow> int \<Rightarrow> int list" where
  "enumeration m cell s =
     concat (map (\<lambda>ii.
       concat (map (\<lambda>jj.
         concat (map (\<lambda>kk. cell_indices m ii jj kk) (survivors m 2 (cell_k cell) s)))
         (survivors m 1 (cell_j cell) s)))
       (survivors m 0 (cell_i cell) s))"

text \<open>
  The invariant of the loops for a vector \<open>neighbours\<close> of \<open>N\<close> elements, and the part
  of it written so far.
\<close>

definition wf_state :: "LatticeMap \<Rightarrow> nat \<Rightarrow> loop_state \<Rightarrow> bool" where
  "wf_state m N s \<longleftrightarrow>
     length (neighbours s) = N \<and> 0 \<le> counter s \<and> counter s \<le> int N \<and> buffer_fits m (glob s)"

definition written :: "loop_state \<Rightarrow> int list" where
  "written s = take (nat (counter s)) (neighbours s)"

text \<open>
  What holds of the loops whatever their bounds: the counter is a multiple of \<open>n_basis_\<close>
  and everything written so far is the index of a site.
\<close>

definition sites_state :: "LatticeMap \<Rightarrow> nat \<Rightarrow> loop_state \<Rightarrow> bool" where
  "sites_state m N s \<longleftrightarrow>
     wf_state m N s \<and> n_basis m dvd counter s \<and>
     list_all (\<lambda>n. 0 \<le> n \<and> n < totalSites m) (written s)"

text \<open>
  The wrap that the specification asks for on a periodic axis, fully into \<open>[0, R)\<close>; the
  code's single step is compared with it.
\<close>

definition wrap_full :: "LatticeMap \<Rightarrow> nat \<Rightarrow> int \<Rightarrow> int" where
  "wrap_full m a x = (if periodic m ! a then x mod repetitions m ! a else x)"

section \<open>Properties\<close>

subsection \<open>Results and vectors\<close>

lemma and_then_Inr [simp]: "and_then (Inr v) f = f v"
  by (simp add: and_then_def)

lemma and_then_Inl [simp]: "and_then (Inl e) f = Inl e"
  by (simp add: and_then_def)

lemma at_in_range [simp]: "n < length xs \<Longrightarrow> at xs n = Inr (xs ! n)"
  by (simp add: at_def)

lemma then_do_Inr [simp]: "then_do (Some (Inr v)) f = f v"
  by (simp add: then_do_def)

lemma then_do_Inl [simp]: "then_do (Some (Inl e)) f = Some (Inl e)"
  by (simp add: then_do_def)

lemma then_do_None [simp]: "then_do None f = None"
  by (simp add: then_do_def)

lemma c_div_nonneg: "0 \<le> a \<Longrightarrow> 0 < b \<Longrightarrow> c_div a b = Inr (a div b)"
  by (simp add: c_div_def sgn_if INT_MIN_def)

subsection \<open>Values within the range of \<open>int\<close>\<close>

lemma i32_id: "INT_MIN \<le> x \<Longrightarrow> x \<le> INT_MAX \<Longrightarrow> i32 x = x"
  by (simp add: i32_def INT_MIN_def INT_MAX_def)

lemma i32_nonneg: "0 \<le> x \<Longrightarrow> x \<le> INT_MAX \<Longrightarrow> i32 x = x"
  by (simp add: i32_def INT_MAX_def)

lemma double_to_int_id: "INT_MIN \<le> p \<Longrightarrow> p \<le> INT_MAX \<Longrightarrow> double_to_int p = p"
  by (simp add: double_to_int_def)

lemma double_to_int_negative: "p < 0 \<Longrightarrow> double_to_int p < 0"
  by (simp add: double_to_int_def INT_MIN_def)

subsection \<open>Integer division\<close>

lemma div_between:
  fixes f c a :: int
  assumes "0 < f" "c * f \<le> a" "a < (c + 1) * f"
  shows "a div f = c"
proof (rule int_div_pos_eq [where r = "a - c * f"])
  show "a = f * c + (a - c * f)" by (simp add: algebra_simps)
  show "0 \<le> a - c * f" using assms by simp
  show "a - c * f < f" using assms by (simp add: algebra_simps)
qed

lemma div_at_least:
  fixes f c a :: int
  assumes "0 < f" "c * f \<le> a"
  shows "c \<le> a div f"
proof -
  have "c * f div f \<le> a div f" using assms by (intro zdiv_mono1) auto
  with assms show ?thesis by simp
qed

lemma mod_div_swap:
  fixes a b c :: int
  assumes "0 < c" "0 < b"
  shows "(a mod (b * c)) div c = (a div c) mod b"
proof -
  have "a mod (c * b) = c * (a div c mod b) + a mod c"
    using assms by (intro zmod_zmult2_eq) simp
  then have "(a mod (b * c)) div c = (c * (a div c mod b) + a mod c) div c"
    by (simp add: mult.commute)
  also have "\<dots> = a div c mod b" using assms by simp
  finally show ?thesis .
qed

subsection \<open>The loops of the decoder\<close>

lemma div_below:
  fixes f c a :: int
  assumes "0 < f" "a < c * f"
  shows "a div f < c"
proof (rule ccontr)
  assume "\<not> a div f < c"
  then have "c \<le> a div f" by simp
  then have "c * f \<le> a div f * f" using assms(1) by (simp add: mult_right_mono)
  moreover have "a div f * f + a mod f = a" by simp
  moreover have "0 \<le> a mod f" using assms(1) by simp
  ultimately show False using assms(2) by linarith
qed

text \<open>
  With a positive factor the search loop stops, at the quotient: entered with
  \<open>cmp = (cell + 1) * factor\<close> and \<open>cell * factor < idx\<close>, it leaves
  \<open>cell = (idx - 1) div factor\<close>, provided that the last value of \<open>cmp\<close> is an \<open>int\<close>.
\<close>

lemma incr_loop_result:
  assumes f: "0 < factor"
    and top: "((idx - 1) div factor + 1) * factor \<le> INT_MAX"
  shows "cmp = (cell + 1) * factor \<Longrightarrow> 0 \<le> cell \<Longrightarrow> cell * factor < idx \<Longrightarrow>
         incr_loop factor idx cell cmp =
           Some ((idx - 1) div factor, ((idx - 1) div factor + 1) * factor)"
proof (induction "nat ((idx - 1) div factor - cell)" arbitrary: cell cmp)
  case 0
  have le: "cell \<le> (idx - 1) div factor"
    using f 0(4) by (intro div_at_least) auto
  with 0(1) have eq: "(idx - 1) div factor = cell" by simp
  have "\<not> cmp < idx"
  proof
    assume "cmp < idx"
    then have "(cell + 1) * factor \<le> idx - 1" using 0(2) by simp
    then have "cell + 1 \<le> (idx - 1) div factor" using f by (intro div_at_least) auto
    with eq show False by simp
  qed
  then show ?case using eq 0(2) by (subst incr_loop.simps) simp
next
  case (Suc n)
  let ?F = "(idx - 1) div factor"
  show ?case
  proof (cases "cmp < idx")
    case True
    then have "(cell + 1) * factor \<le> idx - 1" using Suc(3) by simp
    then have c1: "cell + 1 \<le> ?F" using f by (intro div_at_least) auto
    have "(cell + 1 + 1) * factor \<le> (?F + 1) * factor"
      using c1 f by (intro mult_right_mono) simp_all
    then have m1: "(cell + 1 + 1) * factor \<le> INT_MAX" using top by simp
    have m0: "0 \<le> (cell + 1 + 1) * factor" using Suc(4) f by simp
    have "(cell + 1) * 1 \<le> (cell + 1 + 1) * factor"
      using Suc(4) f by (intro mult_mono) simp_all
    then have "cell + 1 \<le> INT_MAX" using m1 by simp
    then have w1: "i32 (cell + 1) = cell + 1" using Suc(4) by (intro i32_nonneg) simp_all
    have "cmp + factor = (cell + 1 + 1) * factor" using Suc(3) by (simp add: algebra_simps)
    then have w2: "i32 (cmp + factor) = (cell + 1 + 1) * factor"
      using m0 m1 by (simp add: i32_nonneg)
    have "incr_loop factor idx (cell + 1) ((cell + 1 + 1) * factor) =
           Some (?F, (?F + 1) * factor)"
    proof (rule Suc(1))
      show "n = nat (?F - (cell + 1))" using Suc(2) by simp
      show "(cell + 1 + 1) * factor = (cell + 1 + 1) * factor" ..
      show "0 \<le> cell + 1" using Suc(4) by simp
      show "(cell + 1) * factor < idx" using True Suc(3) by simp
    qed
    with True show ?thesis by (subst incr_loop.simps) (simp add: w1 w2)
  next
    case False
    have "?F = cell"
      using f Suc(5) False Suc(3) by (intro div_between) auto
    with Suc(2) show ?thesis by simp
  qed
qed

lemma k_loop_result:
  assumes "idx_k \<le> INT_MAX"
  shows "0 \<le> c \<Longrightarrow> c \<le> idx_k \<Longrightarrow> k_loop idx_k c = Some idx_k"
proof (induction "nat (idx_k - c)" arbitrary: c)
  case 0
  then have "c = idx_k" by simp
  then show ?case by (subst k_loop.simps) simp
next
  case (Suc n)
  then have lt: "c < idx_k" by simp
  then have w: "i32 (c + 1) = c + 1" using Suc(3) assms by (intro i32_nonneg) simp_all
  have "k_loop idx_k (c + 1) = Some idx_k"
    using Suc(2) Suc(3) lt by (intro Suc(1)) simp_all
  with lt show ?case by (subst k_loop.simps) (simp add: w)
qed

text \<open>
  On a valid map whose site indices are all values of \<open>int\<close>, the decoder stops on every
  index of the map and returns the cell of the direct decode.
\<close>

lemma indexToCell_eq_direct:
  assumes v: "valid_map m" and i0: "0 \<le> index" and i1: "index < totalSites m"
    and t: "totalSites m \<le> INT_MAX"
  shows "indexToCell m index = Some (Inr (indexToCell_direct m index))"
proof -
  define nb where "nb = n_basis m"
  define Ra where "Ra = repetitions m ! 0"
  define Rb where "Rb = repetitions m ! 1"
  define Rc where "Rc = repetitions m ! 2"
  define cl where "cl = index div nb"
  define f where "f = Rb * Rc"
  have pos: "0 < nb" "0 < Ra" "0 < Rb" "0 < Rc" and len: "length (repetitions m) = 3"
    using v by (simp_all add: valid_map_def nb_def Ra_def Rb_def Rc_def)
  have tot: "totalSites m = Ra * f * nb"
    by (simp add: totalSites_def nb_def Ra_def Rb_def Rc_def f_def mult.assoc)
  have fpos: "0 < f" using pos by (simp add: f_def)
  have cl0: "0 \<le> cl" using i0 pos by (simp add: cl_def pos_imp_zdiv_nonneg_iff)
  have cl1: "cl < Ra * f" unfolding cl_def using pos(1) i1 tot by (intro div_below) simp_all
  have "Ra * f * 1 \<le> Ra * f * nb" using pos fpos by (intro mult_left_mono) simp_all
  then have cells: "Ra * f \<le> INT_MAX" using t tot by simp
  have "1 * f \<le> Ra * f" using pos fpos by (intro mult_right_mono) simp_all
  then have fmax: "f \<le> INT_MAX" using cells by simp
  have "1 * Rc \<le> Rb * Rc" using pos by (intro mult_right_mono) simp_all
  then have cmax: "Rc \<le> INT_MAX" using fmax by (simp add: f_def)
  have d: "c_div index (n_basis m) = Inr cl"
    using i0 pos by (simp add: c_div_nonneg cl_def nb_def)
  have r1: "at (repetitions m) 1 = Inr Rb" and r2: "at (repetitions m) 2 = Inr Rc"
    using len by (simp_all add: Rb_def Rc_def)
  have e_idx: "i32 (cl + 1) = cl + 1" using cl0 cl1 cells by (intro i32_nonneg) simp_all
  have e_f: "i32 (Rb * Rc) = f" using fpos fmax by (simp add: i32_nonneg f_def)
  \<comment> \<open>the first loop\<close>
  have qi: "cl div f < Ra" using fpos cl1 by (rule div_below)
  have qi0: "0 \<le> cl div f" using cl0 fpos by (simp add: pos_imp_zdiv_nonneg_iff)
  have "(cl div f + 1) * f \<le> Ra * f" using qi fpos by (intro mult_right_mono) simp_all
  have top1: "((cl + 1 - 1) div f + 1) * f \<le> INT_MAX"
    using \<open>(cl div f + 1) * f \<le> Ra * f\<close> cells by simp
  have l1: "incr_loop f (cl + 1) 0 f = Some (cl div f, (cl div f + 1) * f)"
    using incr_loop_result [OF fpos top1, of f 0] cl0 by simp
  have ci_le: "cl div f * f \<le> cl"
  proof -
    have "cl div f * f + cl mod f = cl" by simp
    moreover have "0 \<le> cl mod f" using fpos by simp
    ultimately show ?thesis by linarith
  qed
  have ci0: "0 \<le> cl div f * f" using qi0 fpos by simp
  have e_ci: "i32 (cl div f * f) = cl div f * f"
    using ci0 ci_le cl1 cells by (intro i32_nonneg) simp_all
  have mj0: "0 \<le> cl mod f" and mj1: "cl mod f < f" using fpos by simp_all
  have "cl + 1 - cl div f * f = cl mod f + 1"
    by (simp add: minus_div_mult_eq_mod [symmetric])
  then have idx_j: "i32 (cl + 1 - cl div f * f) = cl mod f + 1"
    using mj0 mj1 fmax by (simp add: i32_nonneg)
  \<comment> \<open>the second loop\<close>
  have qj: "cl mod f div Rc < Rb" using pos(4) mj1 by (intro div_below) (simp_all add: f_def)
  have qj0: "0 \<le> cl mod f div Rc" using mj0 pos by (simp add: pos_imp_zdiv_nonneg_iff)
  have "(cl mod f div Rc + 1) * Rc \<le> Rb * Rc" using qj pos by (intro mult_right_mono) simp_all
  then have top2: "((cl mod f + 1 - 1) div Rc + 1) * Rc \<le> INT_MAX"
    using fmax by (simp add: f_def)
  have l2: "incr_loop Rc (cl mod f + 1) 0 Rc =
              Some (cl mod f div Rc, (cl mod f div Rc + 1) * Rc)"
    using incr_loop_result [OF pos(4) top2, of Rc 0] mj0 by simp
  have cj_le: "cl mod f div Rc * Rc \<le> cl mod f"
  proof -
    have "cl mod f div Rc * Rc + cl mod f mod Rc = cl mod f" by simp
    moreover have "0 \<le> cl mod f mod Rc" using pos by simp
    ultimately show ?thesis by linarith
  qed
  have cj0: "0 \<le> cl mod f div Rc * Rc" using qj0 pos by simp
  have e_cj: "i32 (cl mod f div Rc * Rc) = cl mod f div Rc * Rc"
    using cj0 cj_le mj1 fmax by (intro i32_nonneg) simp_all
  have sum_eq: "cl div f * f + cl mod f div Rc * Rc = cl - cl mod f mod Rc"
  proof -
    have "cl div f * f + cl mod f = cl" by simp
    moreover have "cl mod f div Rc * Rc + cl mod f mod Rc = cl mod f" by simp
    ultimately show ?thesis by linarith
  qed
  have mm: "cl mod f mod Rc = cl mod Rc" by (simp add: f_def mod_mod_cancel)
  have mk0: "0 \<le> cl mod Rc" and mk1: "cl mod Rc < Rc" using pos by simp_all
  have e_cij: "i32 (cl div f * f + cl mod f div Rc * Rc) = cl - cl mod Rc"
    unfolding sum_eq mm using mk0 mk1 cl0 cl1 cells ci0 cj0 sum_eq mm
    by (intro i32_nonneg) linarith+
  have idx_k: "i32 (cl + 1 - (cl - cl mod Rc)) = cl mod Rc + 1"
    using mk0 mk1 cmax by (simp add: i32_nonneg)
  have kk: "k_loop (cl mod Rc + 1) 1 = Some (cl mod Rc + 1)"
    using mk0 mk1 cmax by (intro k_loop_result) simp_all
  have e_k: "i32 (cl mod Rc + 1 - 1) = cl mod Rc"
    using mk0 mk1 cmax by (simp add: i32_nonneg)
  have "indexToCell m index =
          Some (Inr \<lparr>cell_i = cl div f, cell_j = cl mod f div Rc, cell_k = cl mod Rc\<rparr>)"
    unfolding indexToCell_def d r1 r2 Let_def sum.case e_idx e_f l1 option.case prod.case
      e_ci idx_j l2 e_cj e_cij idx_k kk e_k
    by simp
  moreover have "cl mod f div Rc = cl div Rc mod Rb"
    unfolding f_def using pos by (simp add: mod_div_swap)
  ultimately show ?thesis
    by (simp add: indexToCell_direct_def Let_def cl_def nb_def Rb_def Rc_def f_def)
qed

subsection \<open>The encoder\<close>

lemma fill_loop_result:
  "0 \<le> l \<Longrightarrow> l \<le> n \<Longrightarrow> n \<le> int (length buf) \<Longrightarrow> n \<le> INT_MAX \<Longrightarrow>
   0 \<le> tmp3 \<Longrightarrow> tmp3 + n \<le> INT_MAX + 1 \<Longrightarrow>
   fill_loop l n tmp3 buf =
     Inr (take (nat l) buf @ map (\<lambda>x. tmp3 + int x) [nat l..<nat n] @ drop (nat n) buf)"
proof (induction l n tmp3 buf rule: fill_loop.induct)
  case (1 l n tmp3 buf)
  show ?case
  proof (cases "l < n")
    case True
    with 1(2,4) have inb: "nat l < length buf" by simp
    have suc: "nat (l + 1) = Suc (nat l)" using 1(2) by simp
    have w1: "i32 (l + 1) = l + 1" using True 1(2,5) by (intro i32_nonneg) simp_all
    have w2: "i32 (tmp3 + l) = tmp3 + l" using True 1(2,6,7) by (intro i32_nonneg) simp_all
    have ih: "fill_loop (l + 1) n tmp3 (buf[nat l := tmp3 + l]) =
        Inr (take (nat (l + 1)) (buf[nat l := tmp3 + l]) @
             map (\<lambda>x. tmp3 + int x) [nat (l + 1)..<nat n] @
             drop (nat n) (buf[nat l := tmp3 + l]))"
      using True 1(2,4,5,6,7) inb by (intro 1(1) [unfolded w1 w2]) simp_all
    have t: "take (Suc (nat l)) (buf[nat l := tmp3 + l]) = take (nat l) buf @ [tmp3 + l]"
      using inb by (simp add: take_Suc_conv_app_nth)
    have d: "drop (nat n) (buf[nat l := tmp3 + l]) = drop (nat n) buf"
      using True 1(2) by simp
    have u: "[nat l..<nat n] = nat l # [Suc (nat l)..<nat n]"
      using True 1(2) by (simp add: upt_conv_Cons)
    show ?thesis
      using True 1(2) inb by (subst fill_loop.simps) (simp add: w1 w2 ih suc t d u)
  next
    case False
    with 1(3) have "l = n" by simp
    then show ?thesis by (subst fill_loop.simps) simp
  qed
qed

lemma decode_encode:
  fixes nb Rb Rc i j k l :: int
  assumes "0 < nb" "0 < Rb" "0 < Rc" "0 \<le> j" "j < Rb" "0 \<le> k" "k < Rc" "0 \<le> l" "l < nb"
  defines "n \<equiv> ((i * Rb + j) * Rc + k) * nb + l"
  shows "n div nb = (i * Rb + j) * Rc + k" and "n mod nb = l"
    and "(n div nb) mod Rc = k" and "(n div nb) div Rc mod Rb = j"
    and "(n div nb) div (Rb * Rc) = i"
proof -
  show a: "n div nb = (i * Rb + j) * Rc + k" using assms by simp
  show "n mod nb = l" using assms by simp
  show "(n div nb) mod Rc = k" unfolding a using assms by simp
  have b: "((i * Rb + j) * Rc + k) div Rc = i * Rb + j" using assms by simp
  show "(n div nb) div Rc mod Rb = j" unfolding a b using assms by simp
  have "(n div nb) div (Rc * Rb) = (n div nb) div Rc div Rb"
    using assms by (intro zdiv_zmult2_eq) simp
  also have "\<dots> = i" unfolding a b using assms by simp
  finally show "(n div nb) div (Rb * Rc) = i" by (simp add: mult.commute)
qed

lemma encode_decode:
  fixes nb Rb Rc n :: int
  assumes "0 < Rb" "0 < Rc"
  defines "cl \<equiv> n div nb"
  shows "((cl div (Rb * Rc) * Rb + cl div Rc mod Rb) * Rc + cl mod Rc) * nb + n mod nb = n"
proof -
  have "cl div (Rc * Rb) = cl div Rc div Rb"
    using assms by (intro zdiv_zmult2_eq) simp
  then have "cl div (Rb * Rc) * Rb + cl div Rc mod Rb = cl div Rc"
    by (simp add: mult.commute)
  then show ?thesis by (simp add: cl_def)
qed

lemma encode_bound:
  fixes nb Ra Rb Rc i j k l :: int
  assumes "0 \<le> i" "i < Ra" "0 \<le> j" "j < Rb" "0 \<le> k" "k < Rc" "0 \<le> l" "l < nb"
  shows "0 \<le> ((i * Rb + j) * Rc + k) * nb + l"
    and "((i * Rb + j) * Rc + k) * nb + l < Ra * Rb * Rc * nb"
proof -
  have p: "0 \<le> Rb" "0 \<le> Rc" "0 \<le> nb" using assms by simp_all
  have n1: "0 \<le> i * Rb + j" using assms p by simp
  have n2: "0 \<le> (i * Rb + j) * Rc + k" using n1 assms p by simp
  show "0 \<le> ((i * Rb + j) * Rc + k) * nb + l" using n2 assms p by simp
  have "(i + 1) * Rb \<le> Ra * Rb" using assms p by (intro mult_right_mono) simp_all
  then have a: "i * Rb + j + 1 \<le> Ra * Rb" using assms by (simp add: algebra_simps)
  have "(i * Rb + j + 1) * Rc \<le> Ra * Rb * Rc" using a p by (intro mult_right_mono) simp_all
  then have b: "(i * Rb + j) * Rc + k + 1 \<le> Ra * Rb * Rc"
    using assms by (simp add: algebra_simps)
  have "((i * Rb + j) * Rc + k + 1) * nb \<le> Ra * Rb * Rc * nb"
    using b p by (intro mult_right_mono) simp_all
  then show "((i * Rb + j) * Rc + k) * nb + l < Ra * Rb * Rc * nb"
    using assms by (simp add: algebra_simps)
qed

lemma decode_bound:
  fixes nb Ra Rb Rc n :: int
  assumes "0 < nb" "0 < Rb" "0 < Rc" "0 \<le> n" "n < Ra * Rb * Rc * nb"
  defines "cl \<equiv> n div nb"
  shows "0 \<le> cl div (Rb * Rc)" and "cl div (Rb * Rc) < Ra"
    and "0 \<le> cl div Rc mod Rb" and "cl div Rc mod Rb < Rb"
    and "0 \<le> cl mod Rc" and "cl mod Rc < Rc"
    and "0 \<le> n mod nb" and "n mod nb < nb"
proof -
  have c0: "0 \<le> cl" using assms by (simp add: pos_imp_zdiv_nonneg_iff)
  have c1: "cl < Ra * Rb * Rc" unfolding cl_def using assms by (intro div_below) simp_all
  have f: "0 < Rb * Rc" using assms by simp
  show "0 \<le> cl div (Rb * Rc)" using c0 f by (simp add: pos_imp_zdiv_nonneg_iff)
  have "cl < Ra * (Rb * Rc)" using c1 by (simp add: mult.assoc)
  then show "cl div (Rb * Rc) < Ra" using f by (intro div_below)
  show "0 \<le> cl div Rc mod Rb" "cl div Rc mod Rb < Rb" "0 \<le> cl mod Rc" "cl mod Rc < Rc"
    "0 \<le> n mod nb" "n mod nb < nb" using assms by simp_all
qed

lemma sorted_cell_indices: "sorted_wrt (<) (cell_indices m i j k)"
  by (simp add: cell_indices_def sorted_wrt_map flatIndex_def Let_def sorted_wrt_iff_nth_less)

lemma flatIndex_bij:
  assumes "valid_map m"
  shows "bij_betw (\<lambda>(i, j, k, l). flatIndex m i j k l)
           ({0..<repetitions m ! 0} \<times> {0..<repetitions m ! 1} \<times> {0..<repetitions m ! 2} \<times>
            {0..<n_basis m})
           {0..<totalSites m}"
proof -
  define nb where "nb = n_basis m"
  define Ra where "Ra = repetitions m ! 0"
  define Rb where "Rb = repetitions m ! 1"
  define Rc where "Rc = repetitions m ! 2"
  define dec where "dec = (\<lambda>n. ((n div nb) div (Rb * Rc), (n div nb) div Rc mod Rb,
                                 (n div nb) mod Rc, n mod nb))"
  have pos: "0 < nb" "0 < Ra" "0 < Rb" "0 < Rc"
    using assms by (simp_all add: valid_map_def nb_def Ra_def Rb_def Rc_def)
  have fl: "flatIndex m i j k l = ((i * Rb + j) * Rc + k) * nb + l" for i j k l
    by (simp add: flatIndex_def Let_def nb_def Rb_def Rc_def)
  have tot: "totalSites m = Ra * Rb * Rc * nb"
    by (simp add: totalSites_def nb_def Ra_def Rb_def Rc_def)
  have "bij_betw (\<lambda>(i, j, k, l). flatIndex m i j k l)
          ({0..<Ra} \<times> {0..<Rb} \<times> {0..<Rc} \<times> {0..<nb}) {0..<totalSites m}"
  proof (rule bij_betw_byWitness [where f' = dec])
    show "\<forall>a\<in>{0..<Ra} \<times> {0..<Rb} \<times> {0..<Rc} \<times> {0..<nb}.
            dec (case a of (i, j, k, l) \<Rightarrow> flatIndex m i j k l) = a"
    proof clarify
      fix i j k l
      assume "i \<in> {0..<Ra}" "j \<in> {0..<Rb}" "k \<in> {0..<Rc}" "l \<in> {0..<nb}"
      then have r: "0 \<le> j" "j < Rb" "0 \<le> k" "k < Rc" "0 \<le> l" "l < nb" by simp_all
      note d = decode_encode [OF pos(1) pos(3) pos(4) r, of i]
      show "dec (flatIndex m i j k l) = (i, j, k, l)"
        unfolding dec_def fl by (simp only: d(1,2) d(3,4,5) [unfolded d(1)])
    qed
    show "\<forall>a'\<in>{0..<totalSites m}. (case dec a' of (i, j, k, l) \<Rightarrow> flatIndex m i j k l) = a'"
    proof clarify
      fix n
      show "(case dec n of (i, j, k, l) \<Rightarrow> flatIndex m i j k l) = n"
        unfolding dec_def fl prod.case using pos(3,4) by (rule encode_decode)
    qed
    show "(\<lambda>(i, j, k, l). flatIndex m i j k l) ` ({0..<Ra} \<times> {0..<Rb} \<times> {0..<Rc} \<times> {0..<nb})
            \<subseteq> {0..<totalSites m}"
      using encode_bound by (auto simp: fl tot)
    show "dec ` {0..<totalSites m} \<subseteq> {0..<Ra} \<times> {0..<Rb} \<times> {0..<Rc} \<times> {0..<nb}"
      using pos decode_bound [of nb Rb Rc _ Ra] by (auto simp: dec_def tot)
  qed
  then show ?thesis by (simp add: nb_def Ra_def Rb_def Rc_def)
qed

text \<open>
  For a cell of the grid, on a map whose site indices are all values of \<open>int\<close>, no step of
  the encoder leaves the range of \<open>int\<close>.
\<close>

lemma indicesFromCell_result:
  assumes v: "valid_map m" and t: "totalSites m \<le> INT_MAX"
    and r: "0 \<le> i" "i < repetitions m ! 0" "0 \<le> j" "j < repetitions m ! 1"
      "0 \<le> k" "k < repetitions m ! 2"
    and room: "n_basis m \<le> int (length (tmp_cell_indices g))"
  shows "indicesFromCell m i j k g =
     Inr (Ref_tmp_cell_indices,
          g\<lparr>tmp_cell_indices :=
              map (\<lambda>l. flatIndex m i j k (int l)) [0..<nat (n_basis m)] @
              drop (nat (n_basis m)) (tmp_cell_indices g)\<rparr>)"
proof -
  define nb where "nb = n_basis m"
  define Ra where "Ra = repetitions m ! 0"
  define Rb where "Rb = repetitions m ! 1"
  define Rc where "Rc = repetitions m ! 2"
  have pos: "0 < nb" "0 < Rb" "0 < Rc" and len: "length (repetitions m) = 3"
    using v by (simp_all add: valid_map_def nb_def Rb_def Rc_def)
  have r': "0 \<le> i" "i < Ra" "0 \<le> j" "j < Rb" "0 \<le> k" "k < Rc"
    using r by (simp_all add: Ra_def Rb_def Rc_def)
  have tot: "Ra * Rb * Rc * nb \<le> INT_MAX"
    using t by (simp add: totalSites_def nb_def Ra_def Rb_def Rc_def)
  have top: "((i * Rb + j) * Rc + k) * nb + (nb - 1) < Ra * Rb * Rc * nb"
    using r' pos by (intro encode_bound) simp_all
  have a0: "0 \<le> i * Rb" using r' pos by simp
  have b0: "0 \<le> i * Rb + j" using a0 r' by simp
  have c0: "0 \<le> (i * Rb + j) * Rc" using b0 pos by simp
  have d0: "0 \<le> (i * Rb + j) * Rc + k" using c0 r' by simp
  have e0: "0 \<le> ((i * Rb + j) * Rc + k) * nb" using d0 pos by simp
  have "((i * Rb + j) * Rc + k) * 1 \<le> ((i * Rb + j) * Rc + k) * nb"
    using d0 pos by (intro mult_left_mono) simp_all
  then have d1: "(i * Rb + j) * Rc + k \<le> ((i * Rb + j) * Rc + k) * nb" by simp
  have "(i * Rb + j) * 1 \<le> (i * Rb + j) * Rc" using b0 pos by (intro mult_left_mono) simp_all
  then have b1: "i * Rb + j \<le> (i * Rb + j) * Rc" by simp
  have e1: "((i * Rb + j) * Rc + k) * nb \<le> INT_MAX" using top tot pos by linarith
  have d2: "(i * Rb + j) * Rc + k \<le> INT_MAX" using d1 e1 by linarith
  have c1: "(i * Rb + j) * Rc \<le> INT_MAX" using d2 r' by linarith
  have b2: "i * Rb + j \<le> INT_MAX" using b1 c1 by linarith
  have a1: "i * Rb \<le> INT_MAX" using b2 r' by linarith
  have w: "i32 (i * Rb) = i * Rb" "i32 (i * Rb + j) = i * Rb + j"
    "i32 ((i * Rb + j) * Rc) = (i * Rb + j) * Rc"
    "i32 ((i * Rb + j) * Rc + k) = (i * Rb + j) * Rc + k"
    "i32 (((i * Rb + j) * Rc + k) * nb) = ((i * Rb + j) * Rc + k) * nb"
    using a0 a1 b0 b2 c0 c1 d0 d2 e0 e1 by (simp_all add: i32_nonneg)
  have nbmax: "nb \<le> INT_MAX" using top tot e0 by linarith
  have fill: "fill_loop 0 nb (((i * Rb + j) * Rc + k) * nb) (tmp_cell_indices g) =
      Inr (take (nat 0) (tmp_cell_indices g) @
           map (\<lambda>x. ((i * Rb + j) * Rc + k) * nb + int x) [nat 0..<nat nb] @
           drop (nat nb) (tmp_cell_indices g))"
    using pos room e0 nbmax top tot by (intro fill_loop_result) (simp_all add: nb_def)
  have r1: "at (repetitions m) 1 = Inr Rb" and r2: "at (repetitions m) 2 = Inr Rc"
    using len by (simp_all add: Rb_def Rc_def)
  show ?thesis
    unfolding indicesFromCell_def r1 r2 and_then_Inr Let_def nb_def [symmetric] w fill
    by (simp add: flatIndex_def nb_def Rb_def Rc_def)
qed

lemma indicesFromCell_fits:
  assumes "valid_map m" "buffer_fits m g" "totalSites m \<le> INT_MAX"
    and "0 \<le> i" "i < repetitions m ! 0" "0 \<le> j" "j < repetitions m ! 1"
      "0 \<le> k" "k < repetitions m ! 2"
  shows "indicesFromCell m i j k g =
           Inr (Ref_tmp_cell_indices, g\<lparr>tmp_cell_indices := cell_indices m i j k\<rparr>)"
proof -
  have "n_basis m \<le> int (length (tmp_cell_indices g))"
    "drop (nat (n_basis m)) (tmp_cell_indices g) = []"
    using assms(2) by (simp_all add: buffer_fits_def)
  then show ?thesis
    using indicesFromCell_result [OF assms(1,3-9)] by (simp add: cell_indices_def)
qed

lemma length_cell_indices: "length (cell_indices m i j k) = nat (n_basis m)"
  by (simp add: cell_indices_def)

lemma nth_cell_indices:
  "l < nat (n_basis m) \<Longrightarrow> cell_indices m i j k ! l = flatIndex m i j k (int l)"
  by (simp add: cell_indices_def)

subsection \<open>The loops of the neighbour enumeration\<close>

lemma direct_in_range:
  assumes v: "valid_map m" and idx: "0 \<le> index" "index < totalSites m"
  shows "0 \<le> cell_i (indexToCell_direct m index)"
    and "cell_i (indexToCell_direct m index) < repetitions m ! 0"
    and "0 \<le> cell_j (indexToCell_direct m index)"
    and "cell_j (indexToCell_direct m index) < repetitions m ! 1"
    and "0 \<le> cell_k (indexToCell_direct m index)"
    and "cell_k (indexToCell_direct m index) < repetitions m ! 2"
proof -
  have pos: "0 < n_basis m" "0 < repetitions m ! 1" "0 < repetitions m ! 2"
    using v by (simp_all add: valid_map_def)
  have t: "index < repetitions m ! 0 * repetitions m ! 1 * repetitions m ! 2 * n_basis m"
    using idx(2) by (simp add: totalSites_def)
  note b = decode_bound [OF pos idx(1) t]
  show "0 \<le> cell_i (indexToCell_direct m index)"
    "cell_i (indexToCell_direct m index) < repetitions m ! 0"
    "0 \<le> cell_j (indexToCell_direct m index)"
    "cell_j (indexToCell_direct m index) < repetitions m ! 1"
    "0 \<le> cell_k (indexToCell_direct m index)"
    "cell_k (indexToCell_direct m index) < repetitions m ! 2"
    using b by (simp_all add: indexToCell_direct_def Let_def)
qed

lemma rep_pos:
  assumes "valid_map m" "a < 3"
  shows "0 < repetitions m ! a"
proof -
  from assms(2) have "a = 0 \<or> a = 1 \<or> a = 2" by linarith
  then show ?thesis using assms(1) by (auto simp: valid_map_def)
qed

lemma le_mult_ge1:
  fixes a b :: int
  assumes "0 \<le> a" "1 \<le> b"
  shows "a \<le> a * b"
  using mult_left_mono [OF assms(2,1)] by simp

lemma rep_le_total:
  assumes v: "valid_map m" and a: "a < 3"
  shows "repetitions m ! a \<le> totalSites m"
proof -
  define nb where "nb = n_basis m"
  define Ra where "Ra = repetitions m ! 0"
  define Rb where "Rb = repetitions m ! 1"
  define Rc where "Rc = repetitions m ! 2"
  have pos: "1 \<le> nb" "1 \<le> Ra" "1 \<le> Rb" "1 \<le> Rc"
    using v by (simp_all add: valid_map_def nb_def Ra_def Rb_def Rc_def)
  have tot: "totalSites m = Ra * Rb * Rc * nb"
    by (simp add: totalSites_def nb_def Ra_def Rb_def Rc_def)
  have ab: "Ra \<le> Ra * Rb" "Rb \<le> Ra * Rb"
    using pos le_mult_ge1 [of Ra Rb] le_mult_ge1 [of Rb Ra] by (simp_all add: mult.commute)
  have p2: "1 \<le> Ra * Rb" using ab pos by linarith
  have abc: "Ra * Rb \<le> Ra * Rb * Rc" "Rc \<le> Ra * Rb * Rc"
    using pos p2 le_mult_ge1 [of "Ra * Rb" Rc] le_mult_ge1 [of Rc "Ra * Rb"]
    by (simp_all add: mult.commute)
  have p3: "1 \<le> Ra * Rb * Rc" using abc pos by linarith
  have all: "Ra * Rb * Rc \<le> Ra * Rb * Rc * nb"
    using pos p3 le_mult_ge1 [of "Ra * Rb * Rc" nb] by simp
  from a have "a = 0 \<or> a = 1 \<or> a = 2" by linarith
  then show ?thesis
    unfolding tot using ab abc all by (auto simp: Ra_def Rb_def Rc_def)
qed

lemma wrap_axis_valid:
  assumes v: "valid_map m" and a: "a < 3" and t: "totalSites m \<le> INT_MAX"
    and x: "INT_MIN \<le> x" "x \<le> INT_MAX"
  shows "wrap_axis m a x = Inr (wrap_once (periodic m ! a) (repetitions m ! a) x)"
proof -
  have len: "a < length (periodic m)" "a < length (repetitions m)"
    using v a by (simp_all add: valid_map_def)
  have R: "0 < repetitions m ! a" "repetitions m ! a \<le> INT_MAX"
    using rep_pos [OF v a] rep_le_total [OF v a] t by simp_all
  have up: "x < 0 \<Longrightarrow> i32 (x + repetitions m ! a) = x + repetitions m ! a"
    using x R by (intro i32_id) simp_all
  have down: "repetitions m ! a \<le> x \<Longrightarrow> i32 (x - repetitions m ! a) = x - repetitions m ! a"
    using x R by (intro i32_nonneg) simp_all
  show ?thesis
    using len up down by (simp add: wrap_axis_def wrap_once_def)
qed

lemma within_bounds_valid:
  assumes "valid_map m" "a < 3"
  shows "within_bounds m a ii = Inr (0 \<le> ii \<and> ii < repetitions m ! a)"
  using assms by (simp add: within_bounds_def valid_map_def)

lemma copy_cell_appends:
  assumes v: "valid_map m" and t: "totalSites m \<le> INT_MAX"
    and r: "0 \<le> ii" "ii < repetitions m ! 0" "0 \<le> jj" "jj < repetitions m ! 1"
      "0 \<le> kk" "kk < repetitions m ! 2"
    and wf: "wf_state m N s" and room: "counter s + n_basis m \<le> int N"
    and N: "int N \<le> INT_MAX"
  shows "\<exists>s'. copy_cell m ii jj kk s = Inr s' \<and> wf_state m N s' \<and>
           written s' = written s @ cell_indices m ii jj kk \<and>
           counter s' = counter s + n_basis m"
proof -
  let ?src = "cell_indices m ii jj kk"
  let ?g = "(glob s)\<lparr>tmp_cell_indices := ?src\<rparr>"
  have nb: "0 < n_basis m" using v by (simp add: valid_map_def)
  have len: "length (neighbours s) = N" and c0: "0 \<le> counter s" and fits: "buffer_fits m (glob s)"
    using wf by (simp_all add: wf_state_def)
  have e: "indicesFromCell m ii jj kk (glob s) = Inr (Ref_tmp_cell_indices, ?g)"
    using v fits t r by (rule indicesFromCell_fits)
  have ls: "length ?src = nat (n_basis m)" by (rule length_cell_indices)
  have fit: "nat (counter s) + nat (n_basis m) \<le> length (neighbours s)"
    using room c0 nb len by linarith
  have mc: "memcpy (neighbours s) (counter s) ?src (n_basis m) =
          Inr (take (nat (counter s)) (neighbours s) @ ?src @
               drop (nat (counter s) + nat (n_basis m)) (neighbours s))"
    using nb c0 fit ls by (simp add: memcpy_def)
  have w: "i32 (counter s + n_basis m) = counter s + n_basis m"
    using c0 nb room N by (intro i32_nonneg) simp_all
  let ?s' = "\<lparr>neighbours = take (nat (counter s)) (neighbours s) @ ?src @
               drop (nat (counter s) + nat (n_basis m)) (neighbours s),
             counter = counter s + n_basis m, glob = ?g\<rparr>"
  have res: "copy_cell m ii jj kk s = Inr ?s'"
    by (simp add: copy_cell_def e mc w)
  have wf': "wf_state m N ?s'"
    using nb c0 fit ls len room by (simp add: wf_state_def buffer_fits_def)
  have n: "nat (counter s + n_basis m) = nat (counter s) + nat (n_basis m)"
    using nb c0 by (simp add: nat_add_distrib)
  have wr: "written ?s' = written s @ ?src"
    using fit ls by (simp add: written_def n)
  from res wf' wr show ?thesis by simp
qed

text \<open>
  A loop whose bounds are values of \<open>int\<close>, with \<open>hi\<close> below \<open>INT_MAX\<close>, stops; if each
  pass appends \<open>f x\<close> and there is room for all passes, it appends the \<open>f x\<close> in order.
\<close>

lemma for_loop_appends:
  assumes step: "\<And>x s. lo0 \<le> x \<Longrightarrow> x \<le> hi \<Longrightarrow> wf_state m N s \<Longrightarrow> counter s + c \<le> int N \<Longrightarrow>
            \<exists>s'. body x s = Some (Inr s') \<and> wf_state m N s' \<and> written s' = written s @ f x \<and>
                 counter s' \<le> counter s + c"
    and c: "0 \<le> c"
    and rng: "INT_MIN \<le> lo0" "hi < INT_MAX"
  shows "lo0 \<le> lo \<Longrightarrow> lo \<le> hi + 1 \<Longrightarrow> wf_state m N s \<Longrightarrow>
         counter s + (hi - lo + 1) * c \<le> int N \<Longrightarrow>
         \<exists>s'. for_loop lo hi body s = Some (Inr s') \<and> wf_state m N s' \<and>
              written s' = written s @ concat (map f [lo..hi]) \<and>
              counter s' \<le> counter s + (hi - lo + 1) * c"
proof (induction "nat (hi + 1 - lo)" arbitrary: lo s)
  case 0
  then have "lo = hi + 1" by simp
  then show ?case using 0 by (subst for_loop.simps) simp
next
  case (Suc n)
  then have le: "lo \<le> hi" by simp
  have "1 * c \<le> (hi - lo + 1) * c" using le c by (intro mult_right_mono) simp_all
  then have room: "counter s + c \<le> int N" using Suc.prems(4) by simp
  obtain s1 where s1: "body lo s = Some (Inr s1)" "wf_state m N s1"
      "written s1 = written s @ f lo" "counter s1 \<le> counter s + c"
    using step [OF Suc.prems(1) le Suc.prems(3) room] by blast
  have rest: "counter s1 + (hi - (lo + 1) + 1) * c \<le> int N"
    using s1(4) Suc.prems(4) by (simp add: algebra_simps)
  have w: "i32 (lo + 1) = lo + 1"
    using Suc.prems(1) le rng by (intro i32_id) simp_all
  obtain s2 where s2: "for_loop (lo + 1) hi body s1 = Some (Inr s2)" "wf_state m N s2"
      "written s2 = written s1 @ concat (map f [lo + 1..hi])"
      "counter s2 \<le> counter s1 + (hi - (lo + 1) + 1) * c"
  proof -
    have n: "n = nat (hi + 1 - (lo + 1))" using Suc.hyps(2) by linarith
    have a: "lo0 \<le> lo + 1" using Suc.prems(1) by simp
    have b: "lo + 1 \<le> hi + 1" using le by simp
    from Suc.hyps(1) [OF n a b s1(2) rest] that show ?thesis by blast
  qed
  have u: "[lo..hi] = lo # [lo + 1..hi]" using le by (simp add: upto_rec1)
  have "for_loop lo hi body s = Some (Inr s2)"
    using le s1(1) s2(1) by (subst for_loop.simps) (simp add: w)
  moreover have "written s2 = written s @ concat (map f [lo..hi])"
    using s2(3) s1(3) u by simp
  moreover have "counter s2 \<le> counter s + (hi - lo + 1) * c"
    using s2(4) s1(4) by (simp add: algebra_simps)
  ultimately show ?case using s2(2) by blast
qed

lemma concat_map_option:
  "concat (map (\<lambda>x. case f x of None \<Rightarrow> [] | Some y \<Rightarrow> g y) xs) =
   concat (map g (List.map_filter f xs))"
  by (induction xs) (simp_all add: List.map_filter_simps split: option.split)

lemma k_body_appends:
  assumes v: "valid_map m" and t: "totalSites m \<le> INT_MAX"
    and r: "0 \<le> ii" "ii < repetitions m ! 0" "0 \<le> jj" "jj < repetitions m ! 1"
    and x: "INT_MIN \<le> k" "k \<le> INT_MAX"
    and wf: "wf_state m N s" and room: "counter s + n_basis m \<le> int N"
    and N: "int N \<le> INT_MAX"
  shows "\<exists>s'. k_body m ii jj k s = Inr s' \<and> wf_state m N s' \<and>
           written s' = written s @
             (case candidate m 2 k of None \<Rightarrow> [] | Some kk \<Rightarrow> cell_indices m ii jj kk) \<and>
           counter s' \<le> counter s + n_basis m"
proof (cases "candidate m 2 k")
  case None
  then have "k_body m ii jj k s = Inr s"
    using v by (auto simp: k_body_def wrap_axis_valid [OF v _ t x] within_bounds_valid
        candidate_def Let_def split: if_splits)
  with None wf v show ?thesis by (simp add: valid_map_def)
next
  case (Some kk)
  then have kk: "0 \<le> kk" "kk < repetitions m ! 2"
    by (auto simp: candidate_def Let_def split: if_splits)
  from Some have "k_body m ii jj k s = copy_cell m ii jj kk s"
    using v by (auto simp: k_body_def wrap_axis_valid [OF v _ t x] within_bounds_valid
        candidate_def Let_def split: if_splits)
  with Some copy_cell_appends [OF v t r kk wf room N] show ?thesis by auto
qed

lemma k_loop_appends:
  assumes v: "valid_map m" and t: "totalSites m \<le> INT_MAX"
    and r: "0 \<le> ii" "ii < repetitions m ! 0" "0 \<le> jj" "jj < repetitions m ! 1"
    and wf: "wf_state m N s" and sh: "0 \<le> shells"
    and rng: "INT_MIN \<le> c - shells" "c + shells < INT_MAX"
    and room: "counter s + (2 * shells + 1) * n_basis m \<le> int N"
    and N: "int N \<le> INT_MAX"
  shows "\<exists>s'. for_loop (i32 (c - shells)) (i32 (c + shells))
                (\<lambda>k s. Some (k_body m ii jj k s)) s = Some (Inr s') \<and>
           wf_state m N s' \<and>
           written s' = written s @
             concat (map (\<lambda>kk. cell_indices m ii jj kk) (survivors m 2 c shells)) \<and>
           counter s' \<le> counter s + (2 * shells + 1) * n_basis m"
proof -
  have nb: "0 \<le> n_basis m" using v by (simp add: valid_map_def)
  have w: "i32 (c - shells) = c - shells" "i32 (c + shells) = c + shells"
    using rng sh by (simp_all add: i32_id)
  have cnt: "c + shells - (c - shells) + 1 = 2 * shells + 1" by simp
  have "\<exists>s'. for_loop (c - shells) (c + shells) (\<lambda>k s. Some (k_body m ii jj k s)) s
             = Some (Inr s') \<and>
           wf_state m N s' \<and>
           written s' = written s @
             concat (map (\<lambda>k. case candidate m 2 k of None \<Rightarrow> []
                                | Some kk \<Rightarrow> cell_indices m ii jj kk) [c - shells..c + shells]) \<and>
           counter s' \<le> counter s + (c + shells - (c - shells) + 1) * n_basis m"
  proof (rule for_loop_appends [where ?lo0.0 = "c - shells"])
    show "0 \<le> n_basis m" by (rule nb)
    show "INT_MIN \<le> c - shells" "c + shells < INT_MAX" by (rule rng)+
    show "c - shells \<le> c - shells" by simp
    show "c - shells \<le> c + shells + 1" using sh by simp
    show "wf_state m N s" by (rule wf)
    show "counter s + (c + shells - (c - shells) + 1) * n_basis m \<le> int N"
      unfolding cnt by (rule room)
  next
    fix x u
    assume a: "c - shells \<le> x" "x \<le> c + shells" "wf_state m N u"
      "counter u + n_basis m \<le> int N"
    have x: "INT_MIN \<le> x" "x \<le> INT_MAX" using a(1,2) rng by simp_all
    from k_body_appends [OF v t r x a(3,4) N]
    show "\<exists>s'. Some (k_body m ii jj x u) = Some (Inr s') \<and> wf_state m N s' \<and>
        written s' = written u @
          (case candidate m 2 x of None \<Rightarrow> [] | Some kk \<Rightarrow> cell_indices m ii jj kk) \<and>
        counter s' \<le> counter u + n_basis m"
      by simp
  qed
  then show ?thesis unfolding cnt w by (simp add: concat_map_option survivors_def)
qed

lemma j_body_appends:
  assumes v: "valid_map m" and t: "totalSites m \<le> INT_MAX"
    and r: "0 \<le> ii" "ii < repetitions m ! 0"
    and x: "INT_MIN \<le> j" "j \<le> INT_MAX"
    and wf: "wf_state m N s" and sh: "0 \<le> shells"
    and rng: "INT_MIN \<le> cell_k cell - shells" "cell_k cell + shells < INT_MAX"
    and room: "counter s + (2 * shells + 1) * n_basis m \<le> int N"
    and N: "int N \<le> INT_MAX"
  shows "\<exists>s'. j_body m cell shells ii j s = Some (Inr s') \<and> wf_state m N s' \<and>
           written s' = written s @
             (case candidate m 1 j of None \<Rightarrow> []
              | Some jj \<Rightarrow> concat (map (\<lambda>kk. cell_indices m ii jj kk)
                                     (survivors m 2 (cell_k cell) shells))) \<and>
           counter s' \<le> counter s + (2 * shells + 1) * n_basis m"
proof (cases "candidate m 1 j")
  case None
  then have "j_body m cell shells ii j s = Some (Inr s)"
    using v by (auto simp: j_body_def wrap_axis_valid [OF v _ t x] within_bounds_valid
        candidate_def Let_def split: if_splits)
  with None wf v sh show ?thesis by (simp add: valid_map_def)
next
  case (Some jj)
  then have jj: "0 \<le> jj" "jj < repetitions m ! 1"
    by (auto simp: candidate_def Let_def split: if_splits)
  from Some have "j_body m cell shells ii j s =
      for_loop (i32 (cell_k cell - shells)) (i32 (cell_k cell + shells))
        (\<lambda>k s. Some (k_body m ii jj k s)) s"
    using v by (auto simp: j_body_def wrap_axis_valid [OF v _ t x] within_bounds_valid
        candidate_def Let_def split: if_splits)
  with Some k_loop_appends [OF v t r jj wf sh rng room N] show ?thesis by auto
qed

lemma j_loop_appends:
  assumes v: "valid_map m" and t: "totalSites m \<le> INT_MAX"
    and r: "0 \<le> ii" "ii < repetitions m ! 0"
    and wf: "wf_state m N s" and sh: "0 \<le> shells"
    and rngj: "INT_MIN \<le> cell_j cell - shells" "cell_j cell + shells < INT_MAX"
    and rngk: "INT_MIN \<le> cell_k cell - shells" "cell_k cell + shells < INT_MAX"
    and room: "counter s + (2 * shells + 1) * ((2 * shells + 1) * n_basis m) \<le> int N"
    and N: "int N \<le> INT_MAX"
  shows "\<exists>s'. for_loop (i32 (cell_j cell - shells)) (i32 (cell_j cell + shells))
                (j_body m cell shells ii) s = Some (Inr s') \<and>
           wf_state m N s' \<and>
           written s' = written s @
             concat (map (\<lambda>jj. concat (map (\<lambda>kk. cell_indices m ii jj kk)
                                          (survivors m 2 (cell_k cell) shells)))
                       (survivors m 1 (cell_j cell) shells)) \<and>
           counter s' \<le> counter s + (2 * shells + 1) * ((2 * shells + 1) * n_basis m)"
proof -
  let ?c = "cell_j cell"
  let ?f = "\<lambda>jj. concat (map (\<lambda>kk. cell_indices m ii jj kk) (survivors m 2 (cell_k cell) shells))"
  have nb: "0 \<le> (2 * shells + 1) * n_basis m" using v sh by (simp add: valid_map_def)
  have w: "i32 (?c - shells) = ?c - shells" "i32 (?c + shells) = ?c + shells"
    using rngj sh by (simp_all add: i32_id)
  have cnt: "?c + shells - (?c - shells) + 1 = 2 * shells + 1" by simp
  have "\<exists>s'. for_loop (?c - shells) (?c + shells) (j_body m cell shells ii) s = Some (Inr s') \<and>
           wf_state m N s' \<and>
           written s' = written s @
             concat (map (\<lambda>j. case candidate m 1 j of None \<Rightarrow> [] | Some jj \<Rightarrow> ?f jj)
                       [?c - shells..?c + shells]) \<and>
           counter s' \<le> counter s + (?c + shells - (?c - shells) + 1) * ((2 * shells + 1) * n_basis m)"
  proof (rule for_loop_appends [where ?lo0.0 = "?c - shells"])
    show "0 \<le> (2 * shells + 1) * n_basis m" by (rule nb)
    show "INT_MIN \<le> ?c - shells" "?c + shells < INT_MAX" by (rule rngj)+
    show "?c - shells \<le> ?c - shells" by simp
    show "?c - shells \<le> ?c + shells + 1" using sh by simp
    show "wf_state m N s" by (rule wf)
    show "counter s + (?c + shells - (?c - shells) + 1) * ((2 * shells + 1) * n_basis m) \<le> int N"
      unfolding cnt by (rule room)
  next
    fix x u
    assume a: "?c - shells \<le> x" "x \<le> ?c + shells" "wf_state m N u"
      "counter u + (2 * shells + 1) * n_basis m \<le> int N"
    have x: "INT_MIN \<le> x" "x \<le> INT_MAX" using a(1,2) rngj by simp_all
    show "\<exists>s'. j_body m cell shells ii x u = Some (Inr s') \<and> wf_state m N s' \<and>
        written s' = written u @ (case candidate m 1 x of None \<Rightarrow> [] | Some jj \<Rightarrow> ?f jj) \<and>
        counter s' \<le> counter u + (2 * shells + 1) * n_basis m"
      by (rule j_body_appends [OF v t r x a(3) sh rngk a(4) N])
  qed
  then show ?thesis unfolding cnt w by (simp add: concat_map_option [where g = ?f] survivors_def)
qed

lemma i_body_appends:
  assumes v: "valid_map m" and t: "totalSites m \<le> INT_MAX"
    and x: "INT_MIN \<le> i" "i \<le> INT_MAX"
    and wf: "wf_state m N s" and sh: "0 \<le> shells"
    and rngj: "INT_MIN \<le> cell_j cell - shells" "cell_j cell + shells < INT_MAX"
    and rngk: "INT_MIN \<le> cell_k cell - shells" "cell_k cell + shells < INT_MAX"
    and room: "counter s + (2 * shells + 1) * ((2 * shells + 1) * n_basis m) \<le> int N"
    and N: "int N \<le> INT_MAX"
  shows "\<exists>s'. i_body m cell shells i s = Some (Inr s') \<and> wf_state m N s' \<and>
           written s' = written s @
             (case candidate m 0 i of None \<Rightarrow> []
              | Some ii \<Rightarrow>
                  concat (map (\<lambda>jj. concat (map (\<lambda>kk. cell_indices m ii jj kk)
                                               (survivors m 2 (cell_k cell) shells)))
                            (survivors m 1 (cell_j cell) shells))) \<and>
           counter s' \<le> counter s + (2 * shells + 1) * ((2 * shells + 1) * n_basis m)"
proof (cases "candidate m 0 i")
  case None
  then have "i_body m cell shells i s = Some (Inr s)"
    using v by (auto simp: i_body_def wrap_axis_valid [OF v _ t x] within_bounds_valid
        candidate_def Let_def split: if_splits)
  with None wf v sh show ?thesis by (simp add: valid_map_def)
next
  case (Some ii)
  then have ii: "0 \<le> ii" "ii < repetitions m ! 0"
    by (auto simp: candidate_def Let_def split: if_splits)
  from Some have "i_body m cell shells i s =
      for_loop (i32 (cell_j cell - shells)) (i32 (cell_j cell + shells))
        (j_body m cell shells ii) s"
    using v by (auto simp: i_body_def wrap_axis_valid [OF v _ t x] within_bounds_valid
        candidate_def Let_def split: if_splits)
  with Some j_loop_appends [OF v t ii wf sh rngj rngk room N] show ?thesis by auto
qed

lemma i_loop_appends:
  assumes v: "valid_map m" and t: "totalSites m \<le> INT_MAX"
    and wf: "wf_state m N s" and sh: "0 \<le> shells"
    and rngi: "INT_MIN \<le> cell_i cell - shells" "cell_i cell + shells < INT_MAX"
    and rngj: "INT_MIN \<le> cell_j cell - shells" "cell_j cell + shells < INT_MAX"
    and rngk: "INT_MIN \<le> cell_k cell - shells" "cell_k cell + shells < INT_MAX"
    and room: "counter s + (2 * shells + 1) * ((2 * shells + 1) * ((2 * shells + 1) * n_basis m))
                 \<le> int N"
    and N: "int N \<le> INT_MAX"
  shows "\<exists>s'. for_loop (i32 (cell_i cell - shells)) (i32 (cell_i cell + shells))
                (i_body m cell shells) s = Some (Inr s') \<and>
           wf_state m N s' \<and> written s' = written s @ enumeration m cell shells"
proof -
  let ?c = "cell_i cell"
  let ?w = "(2 * shells + 1) * ((2 * shells + 1) * n_basis m)"
  let ?f = "\<lambda>ii. concat (map (\<lambda>jj. concat (map (\<lambda>kk. cell_indices m ii jj kk)
                                               (survivors m 2 (cell_k cell) shells)))
                            (survivors m 1 (cell_j cell) shells))"
  have nb: "0 \<le> ?w" using v sh by (simp add: valid_map_def)
  have w: "i32 (?c - shells) = ?c - shells" "i32 (?c + shells) = ?c + shells"
    using rngi sh by (simp_all add: i32_id)
  have cnt: "?c + shells - (?c - shells) + 1 = 2 * shells + 1" by simp
  have "\<exists>s'. for_loop (?c - shells) (?c + shells) (i_body m cell shells) s = Some (Inr s') \<and>
           wf_state m N s' \<and>
           written s' = written s @
             concat (map (\<lambda>i. case candidate m 0 i of None \<Rightarrow> [] | Some ii \<Rightarrow> ?f ii)
                       [?c - shells..?c + shells]) \<and>
           counter s' \<le> counter s + (?c + shells - (?c - shells) + 1) * ?w"
  proof (rule for_loop_appends [where ?lo0.0 = "?c - shells"])
    show "0 \<le> ?w" by (rule nb)
    show "INT_MIN \<le> ?c - shells" "?c + shells < INT_MAX" by (rule rngi)+
    show "?c - shells \<le> ?c - shells" by simp
    show "?c - shells \<le> ?c + shells + 1" using sh by simp
    show "wf_state m N s" by (rule wf)
    show "counter s + (?c + shells - (?c - shells) + 1) * ?w \<le> int N"
      unfolding cnt by (rule room)
  next
    fix x u
    assume a: "?c - shells \<le> x" "x \<le> ?c + shells" "wf_state m N u" "counter u + ?w \<le> int N"
    have x: "INT_MIN \<le> x" "x \<le> INT_MAX" using a(1,2) rngi by simp_all
    show "\<exists>s'. i_body m cell shells x u = Some (Inr s') \<and> wf_state m N s' \<and>
        written s' = written u @ (case candidate m 0 x of None \<Rightarrow> [] | Some ii \<Rightarrow> ?f ii) \<and>
        counter s' \<le> counter u + ?w"
      by (rule i_body_appends [OF v t x a(3) sh rngj rngk a(4) N])
  qed
  then show ?thesis
    unfolding w by (auto simp: concat_map_option [where g = ?f] survivors_def enumeration_def)
qed

text \<open>
  The result of \<open>neighbourIndices\<close> when nothing leaves the range of \<open>int\<close>: the size of
  \<open>neighbours\<close> is an \<open>int\<close>, and so is every loop bound and the value after the last
  increment.
\<close>

lemma neighbourIndices_result:
  assumes v: "valid_map m" and fits: "buffer_fits m g"
    and idx: "0 \<le> index" "index < totalSites m"
    and sh: "0 \<le> shells"
    and size: "(2 * shells + 1) ^ 3 * n_basis m \<le> INT_MAX"
    and far: "totalSites m + shells \<le> INT_MAX"
  shows "\<exists>g'. neighbourIndices m index shells g =
                 Some (Inr (enumeration m (indexToCell_direct m index) shells, g')) \<and>
              buffer_fits m g'"
proof -
  let ?cell = "indexToCell_direct m index"
  let ?n = "(2 * shells + 1) ^ 3 * n_basis m"
  let ?s0 = "\<lparr>neighbours = replicate (nat ?n) 0, counter = 0, glob = g\<rparr>"
  have t: "totalSites m \<le> INT_MAX" using far sh by simp
  have nb: "0 < n_basis m" using v by (simp add: valid_map_def)
  have p: "0 < (2 * shells + 1) ^ 3" using sh by simp
  have n0: "0 < ?n" using p nb by (rule mult_pos_pos)
  have "(2 * shells + 1) * 1 * 1 \<le> (2 * shells + 1) * (2 * shells + 1) * (2 * shells + 1)"
    using sh by (intro mult_mono) simp_all
  then have "2 * shells + 1 \<le> (2 * shells + 1) ^ 3" by (simp add: power3_eq_cube)
  also have "\<dots> \<le> ?n" using p nb le_mult_ge1 [of "(2 * shells + 1) ^ 3" "n_basis m"] by simp
  finally have w1: "2 * shells + 1 \<le> INT_MAX" using size by simp
  have w: "i32 (i32 (2 * shells) + 1) = 2 * shells + 1"
    using sh w1 by (simp add: i32_nonneg)
  have dn: "double_to_int ?n = ?n" using n0 size by (intro double_to_int_id) (simp_all add: INT_MIN_def)
  have d: "indexToCell m index = Some (Inr ?cell)" using v idx t by (rule indexToCell_eq_direct)
  note c = direct_in_range [OF v idx]
  have R: "repetitions m ! 0 \<le> totalSites m" "repetitions m ! 1 \<le> totalSites m"
    "repetitions m ! 2 \<le> totalSites m"
    using rep_le_total [OF v] by simp_all
  have low: "INT_MIN \<le> - shells" using far rep_pos [OF v, of 0] R(1) by (simp add: INT_MIN_def INT_MAX_def)
  have rngi: "INT_MIN \<le> cell_i ?cell - shells" "cell_i ?cell + shells < INT_MAX"
    using c(1,2) R(1) far low by linarith+
  have rngj: "INT_MIN \<le> cell_j ?cell - shells" "cell_j ?cell + shells < INT_MAX"
    using c(3,4) R(2) far low by linarith+
  have rngk: "INT_MIN \<le> cell_k ?cell - shells" "cell_k ?cell + shells < INT_MAX"
    using c(5,6) R(3) far low by linarith+
  have rs: "resize [] ?n = Inr (replicate (nat ?n) 0)" using n0 by (simp add: resize_def)
  have first: "at (replicate (nat ?n) (0::int)) 0 = Inr 0" using n0 by simp
  have wf: "wf_state m (nat ?n) ?s0" using n0 fits by (simp add: wf_state_def)
  have N: "int (nat ?n) \<le> INT_MAX" using n0 size by simp
  have room: "counter ?s0 +
      (2 * shells + 1) * ((2 * shells + 1) * ((2 * shells + 1) * n_basis m)) \<le> int (nat ?n)"
    using n0 by (simp add: power3_eq_cube algebra_simps)
  obtain s' where s': "for_loop (i32 (cell_i ?cell - shells)) (i32 (cell_i ?cell + shells))
        (i_body m ?cell shells) ?s0 = Some (Inr s')"
      "wf_state m (nat ?n) s'" "written s' = written ?s0 @ enumeration m ?cell shells"
    using i_loop_appends [OF v t wf sh rngi rngj rngk room N] by blast
  have wr: "written s' = enumeration m ?cell shells" using s'(3) by (simp add: written_def)
  have "length (neighbours s') = nat ?n" "0 \<le> counter s'" "counter s' \<le> int (nat ?n)"
    using s'(2) by (simp_all only: wf_state_def)
  then have "0 \<le> counter s'" "nat (counter s') \<le> length (neighbours s')" by linarith+
  then have fin: "resize (neighbours s') (counter s') = Inr (written s')"
    by (simp add: resize_def written_def)
  have "neighbourIndices m index shells g = Some (Inr (enumeration m ?cell shells, glob s'))"
    unfolding neighbourIndices_def d then_do_Inr Let_def w dn rs first s'(1) fin wr
    by simp
  with s'(2) show ?thesis by (auto simp: wf_state_def)
qed

subsection \<open>Consequences for the result of the enumeration\<close>

text \<open>
  A negative shell radius whose double is still an \<open>int\<close>: the size of \<open>neighbours\<close> is
  negative, whether the product is an \<open>int\<close> or not.
\<close>

lemma neighbourIndices_negative:
  assumes v: "valid_map m" and idx: "0 \<le> index" "index < totalSites m"
    and t: "totalSites m \<le> INT_MAX"
    and sh: "INT_MIN \<le> 2 * shells" "shells < 0"
  shows "neighbourIndices m index shells g = Some (Inl AllocFailure)"
proof -
  have nb: "0 < n_basis m" using v by (simp add: valid_map_def)
  have d: "indexToCell m index = Some (Inr (indexToCell_direct m index))"
    using v idx t by (rule indexToCell_eq_direct)
  have "i32 (2 * shells) = 2 * shells" using sh by (intro i32_id) (simp_all add: INT_MAX_def)
  moreover have "i32 (2 * shells + 1) = 2 * shells + 1"
    using sh by (intro i32_id) (simp_all add: INT_MAX_def)
  ultimately have w: "i32 (i32 (2 * shells) + 1) = 2 * shells + 1" by simp
  have "2 * shells + 1 < 0" using sh by simp
  then have "(2 * shells + 1) ^ 3 < 0" by (simp add: power3_eq_cube mult_neg_neg mult_pos_neg)
  then have "(2 * shells + 1) ^ 3 * n_basis m < 0" using nb by (rule mult_neg_pos)
  then have "double_to_int ((2 * shells + 1) ^ 3 * n_basis m) < 0"
    by (rule double_to_int_negative)
  then have rs: "resize [] (double_to_int ((2 * shells + 1) ^ 3 * n_basis m)) = Inl AllocFailure"
    by (simp add: resize_def)
  show ?thesis
    unfolding neighbourIndices_def d then_do_Inr Let_def w rs by simp
qed

text \<open>
  A negative shell radius whose double is not an \<open>int\<close>: \<open>2*shells + 1\<close> wraps to a
  positive value, and from \<open>1291\<close> on its cube is no \<open>int\<close>.
\<close>

lemma neighbourIndices_negative_wrapped:
  assumes v: "valid_map m" and idx: "0 \<le> index" "index < totalSites m"
    and t: "totalSites m \<le> INT_MAX"
    and sh: "INT_MIN + 645 \<le> shells" "2 * shells < INT_MIN"
  shows "neighbourIndices m index shells g = Some (Inl AllocFailure)"
proof -
  let ?w = "2 * shells + 4294967297"
  have nb: "1 \<le> n_basis m" using v by (simp add: valid_map_def)
  have d: "indexToCell m index = Some (Inr (indexToCell_direct m index))"
    using v idx t by (rule indexToCell_eq_direct)
  have "(2 * shells + 2147483648) mod 4294967296 =
      (2 * shells + 2147483648 + 4294967296) mod 4294967296"
    by (simp only: mod_add_self2)
  also have "\<dots> = 2 * shells + 2147483648 + 4294967296"
    using sh by (intro mod_pos_pos_trivial) (simp_all add: INT_MIN_def)
  finally have a: "i32 (2 * shells) = 2 * shells + 4294967296" by (simp add: i32_def)
  have r: "1291 \<le> ?w" "?w \<le> INT_MAX" using sh by (simp_all add: INT_MIN_def INT_MAX_def)
  have "i32 ?w = ?w" using r by (intro i32_nonneg) simp_all
  with a have w: "i32 (i32 (2 * shells) + 1) = ?w" by (simp add: add.commute)
  have "(1291::int) ^ 3 \<le> ?w ^ 3" using r(1) by (intro power_mono) simp_all
  then have c: "2151685171 \<le> ?w ^ 3" by simp
  have "?w ^ 3 * 1 \<le> ?w ^ 3 * n_basis m" using nb c by (intro mult_left_mono) linarith+
  with c have "INT_MAX < ?w ^ 3 * n_basis m" by (simp add: INT_MAX_def)
  then have "double_to_int (?w ^ 3 * n_basis m) = INT_MIN" by (simp add: double_to_int_def)
  then have rs: "resize [] (double_to_int (?w ^ 3 * n_basis m)) = Inl AllocFailure"
    by (simp add: resize_def INT_MIN_def)
  show ?thesis
    unfolding neighbourIndices_def d then_do_Inr Let_def w rs by simp
qed

text \<open>
  A shell radius that is not negative and for which the size of \<open>neighbours\<close> is no
  \<open>int\<close>: either \<open>2*shells + 1\<close> is an \<open>int\<close> and the product, too large, is converted to
  \<open>INT_MIN\<close>, or \<open>2*shells\<close> wraps to a negative value. The allocation fails.
\<close>

lemma neighbourIndices_too_large:
  assumes v: "valid_map m" and idx: "0 \<le> index" "index < totalSites m"
    and t: "totalSites m \<le> INT_MAX"
    and sh: "0 \<le> shells" "shells \<le> INT_MAX"
    and big: "INT_MAX < (2 * shells + 1) ^ 3 * n_basis m"
  shows "neighbourIndices m index shells g = Some (Inl AllocFailure)"
proof -
  let ?w = "i32 (i32 (2 * shells) + 1)"
  have nb: "0 < n_basis m" using v by (simp add: valid_map_def)
  have d: "indexToCell m index = Some (Inr (indexToCell_direct m index))"
    using v idx t by (rule indexToCell_eq_direct)
  have neg: "double_to_int (?w ^ 3 * n_basis m) < 0"
  proof (cases "2 * shells + 1 \<le> INT_MAX")
    case True
    have "i32 (2 * shells) = 2 * shells" using sh(1) True by (intro i32_nonneg) simp_all
    moreover have "i32 (2 * shells + 1) = 2 * shells + 1"
      using sh(1) True by (intro i32_nonneg) simp_all
    ultimately have "?w = 2 * shells + 1" by simp
    with big show ?thesis by (simp add: double_to_int_def INT_MIN_def)
  next
    case False
    then have lo: "2147483647 \<le> 2 * shells" by (simp add: INT_MAX_def)
    have hi: "2 * shells \<le> 4294967294" using sh(2) by (simp add: INT_MAX_def)
    have "(2 * shells + 2147483648) mod 4294967296 =
        (2 * shells + 2147483648 - 4294967296) mod 4294967296"
      by (simp only: mod_diff_right_eq [symmetric] mod_self diff_zero)
    also have "\<dots> = 2 * shells + 2147483648 - 4294967296"
      using lo hi by (intro mod_pos_pos_trivial) presburger+
    finally have a: "i32 (2 * shells) = 2 * shells - 4294967296" by (simp add: i32_def)
    have "i32 (2 * shells - 4294967295) = 2 * shells - 4294967295"
      using lo hi by (intro i32_id) (simp_all add: INT_MIN_def INT_MAX_def)
    with a have w: "?w = 2 * shells - 4294967295" by simp
    have "?w < 0" unfolding w using hi by simp
    then have "?w ^ 3 < 0" by (simp add: power_less_zero_eq)
    then have "?w ^ 3 * n_basis m < 0" using nb by (rule mult_neg_pos)
    then show ?thesis by (rule double_to_int_negative)
  qed
  then have rs: "resize [] (double_to_int (?w ^ 3 * n_basis m)) = Inl AllocFailure"
    by (simp add: resize_def)
  show ?thesis
    unfolding neighbourIndices_def d then_do_Inr Let_def rs by simp
qed

lemma set_map_filter_option:
  "set (List.map_filter f xs) = {y. \<exists>x\<in>set xs. f x = Some y}"
  by (induction xs) (auto simp: List.map_filter_simps split: option.splits)

lemma length_map_filter_le: "length (List.map_filter f xs) \<le> length xs"
  by (induction xs) (auto simp: List.map_filter_simps split: option.splits)

lemma set_survivors:
  "set (survivors m a c s) = {y. \<exists>x. c - s \<le> x \<and> x \<le> c + s \<and> candidate m a x = Some y}"
  by (auto simp: survivors_def set_map_filter_option)

lemma length_survivors:
  assumes "0 \<le> s"
  shows "int (length (survivors m a c s)) \<le> 2 * s + 1"
proof -
  have "length (survivors m a c s) \<le> length [c - s..c + s]"
    unfolding survivors_def by (rule length_map_filter_le)
  then show ?thesis using assms by simp
qed

lemma survivors_zero:
  assumes "0 \<le> c" "c < repetitions m ! a"
  shows "survivors m a c 0 = [c]"
  using assms by (simp add: survivors_def List.map_filter_def candidate_def wrap_once_def)

lemma length_concat_const:
  "(\<And>x. x \<in> set xs \<Longrightarrow> length (f x) = L) \<Longrightarrow> length (concat (map f xs)) = length xs * L"
  by (induction xs) simp_all

lemma length_enumeration:
  "length (enumeration m cell s) =
     length (survivors m 0 (cell_i cell) s) *
       (length (survivors m 1 (cell_j cell) s) *
         (length (survivors m 2 (cell_k cell) s) * nat (n_basis m)))"
  unfolding enumeration_def
  by (simp add: length_concat_const length_cell_indices)

lemma length_enumeration_bound:
  assumes "0 \<le> s" "0 \<le> n_basis m"
  shows "int (length (enumeration m cell s)) \<le> (2 * s + 1) ^ 3 * n_basis m"
proof -
  let ?a = "int (length (survivors m 0 (cell_i cell) s))"
  let ?b = "int (length (survivors m 1 (cell_j cell) s))"
  let ?c = "int (length (survivors m 2 (cell_k cell) s))"
  let ?w = "2 * s + 1"
  have a: "?a \<le> ?w" and b: "?b \<le> ?w" and c: "?c \<le> ?w"
    using assms(1) by (simp_all add: length_survivors)
  have w: "0 \<le> ?w" using assms(1) by simp
  have c0: "0 \<le> ?c * n_basis m" using assms(2) by simp
  have 1: "?c * n_basis m \<le> ?w * n_basis m" using c assms(2) by (rule mult_right_mono)
  have 2: "?b * (?c * n_basis m) \<le> ?w * (?w * n_basis m)"
    using b 1 w c0 by (rule mult_mono)
  have b0: "0 \<le> ?b * (?c * n_basis m)" using c0 by simp
  have "?a * (?b * (?c * n_basis m)) \<le> ?w * (?w * (?w * n_basis m))"
    using a 2 w b0 by (rule mult_mono)
  moreover have "int (length (enumeration m cell s)) = ?a * (?b * (?c * n_basis m))"
    using assms(2) by (simp add: length_enumeration)
  ultimately show ?thesis by (simp add: power3_eq_cube algebra_simps)
qed

lemma enumeration_zero:
  assumes "0 \<le> cell_i cell" "cell_i cell < repetitions m ! 0"
    and "0 \<le> cell_j cell" "cell_j cell < repetitions m ! 1"
    and "0 \<le> cell_k cell" "cell_k cell < repetitions m ! 2"
  shows "enumeration m cell 0 = cell_indices m (cell_i cell) (cell_j cell) (cell_k cell)"
  using assms by (simp add: enumeration_def survivors_zero)


subsection \<open>Members of the enumeration\<close>

lemma candidate_SomeD:
  assumes "candidate m a x = Some y"
  shows "0 \<le> y" and "y < repetitions m ! a" and "\<not> periodic m ! a \<Longrightarrow> y = x"
  using assms by (auto simp: candidate_def wrap_once_def Let_def split: if_splits)

lemma candidate_non_periodic_outside:
  assumes "\<not> periodic m ! a" and "x < 0 \<or> repetitions m ! a \<le> x"
  shows "candidate m a x = None"
  using assms by (auto simp: candidate_def wrap_once_def Let_def)

lemma body_skips:
  assumes v: "valid_map m" and t: "totalSites m \<le> INT_MAX"
    and x: "INT_MIN \<le> x" "x \<le> INT_MAX"
  shows "candidate m 0 x = None \<Longrightarrow> i_body m cell s x st = Some (Inr st)"
    and "candidate m 1 x = None \<Longrightarrow> j_body m cell s ii x st = Some (Inr st)"
    and "candidate m 2 x = None \<Longrightarrow> k_body m ii jj x st = Inr st"
  using v
  by (auto simp: i_body_def j_body_def k_body_def wrap_axis_valid [OF v _ t x]
      within_bounds_valid candidate_def Let_def split: if_splits)

lemma in_cell_indices:
  "n \<in> set (cell_indices m ii jj kk) \<longleftrightarrow>
     (\<exists>l. 0 \<le> l \<and> l < n_basis m \<and> n = flatIndex m ii jj kk l)"
proof
  assume "n \<in> set (cell_indices m ii jj kk)"
  then obtain l where "l < nat (n_basis m)" "n = flatIndex m ii jj kk (int l)"
    by (auto simp: cell_indices_def)
  then show "\<exists>l. 0 \<le> l \<and> l < n_basis m \<and> n = flatIndex m ii jj kk l"
    by (intro exI [of _ "int l"]) simp
next
  assume "\<exists>l. 0 \<le> l \<and> l < n_basis m \<and> n = flatIndex m ii jj kk l"
  then obtain l where l: "0 \<le> l" "l < n_basis m" "n = flatIndex m ii jj kk l" by blast
  then have "nat l < nat (n_basis m)" "n = flatIndex m ii jj kk (int (nat l))" by simp_all
  then show "n \<in> set (cell_indices m ii jj kk)"
    unfolding cell_indices_def by (auto intro!: image_eqI [where x = "nat l"])
qed

lemma set_enumeration:
  "set (enumeration m cell s) =
     {n. \<exists>ii\<in>set (survivors m 0 (cell_i cell) s).
         \<exists>jj\<in>set (survivors m 1 (cell_j cell) s).
         \<exists>kk\<in>set (survivors m 2 (cell_k cell) s). n \<in> set (cell_indices m ii jj kk)}"
  unfolding enumeration_def by auto

lemma direct_flatIndex:
  assumes v: "valid_map m"
    and r: "0 \<le> jj" "jj < repetitions m ! 1" "0 \<le> kk" "kk < repetitions m ! 2"
      "0 \<le> l" "l < n_basis m"
  shows "indexToCell_direct m (flatIndex m ii jj kk l) = \<lparr>cell_i = ii, cell_j = jj, cell_k = kk\<rparr>"
proof -
  have pos: "0 < n_basis m" "0 < repetitions m ! 1" "0 < repetitions m ! 2"
    using v by (simp_all add: valid_map_def)
  note d = decode_encode [OF pos r, of ii]
  show ?thesis
    unfolding indexToCell_direct_def flatIndex_def Let_def
    by (simp only: d(1) d(3,4,5) [unfolded d(1)])
qed

lemma flatIndex_range:
  assumes v: "valid_map m"
    and r: "0 \<le> ii" "ii < repetitions m ! 0" "0 \<le> jj" "jj < repetitions m ! 1"
      "0 \<le> kk" "kk < repetitions m ! 2" "0 \<le> l" "l < n_basis m"
  shows "0 \<le> flatIndex m ii jj kk l" and "flatIndex m ii jj kk l < totalSites m"
  using encode_bound [OF r] by (simp_all add: flatIndex_def totalSites_def)

text \<open>An index of the enumeration: its cell passed the three tests.\<close>

lemma enumeration_member:
  assumes v: "valid_map m" and t: "totalSites m \<le> INT_MAX"
    and n: "n \<in> set (enumeration m cell s)"
  obtains x y z ii jj kk where
    "cell_i cell - s \<le> x" "x \<le> cell_i cell + s" "candidate m 0 x = Some ii"
    "cell_j cell - s \<le> y" "y \<le> cell_j cell + s" "candidate m 1 y = Some jj"
    "cell_k cell - s \<le> z" "z \<le> cell_k cell + s" "candidate m 2 z = Some kk"
    "0 \<le> n" "n < totalSites m"
    "indexToCell m n = Some (Inr \<lparr>cell_i = ii, cell_j = jj, cell_k = kk\<rparr>)"
proof -
  from n obtain ii jj kk l x y z where
      x: "cell_i cell - s \<le> x" "x \<le> cell_i cell + s" "candidate m 0 x = Some ii"
    and y: "cell_j cell - s \<le> y" "y \<le> cell_j cell + s" "candidate m 1 y = Some jj"
    and z: "cell_k cell - s \<le> z" "z \<le> cell_k cell + s" "candidate m 2 z = Some kk"
    and l: "0 \<le> l" "l < n_basis m" "n = flatIndex m ii jj kk l"
    unfolding set_enumeration set_survivors in_cell_indices by blast
  note ri = candidate_SomeD(1,2) [OF x(3)] and rj = candidate_SomeD(1,2) [OF y(3)]
    and rk = candidate_SomeD(1,2) [OF z(3)]
  have n0: "0 \<le> n" and n1: "n < totalSites m"
    using flatIndex_range [OF v ri rj rk l(1,2)] l(3) by simp_all
  have "indexToCell m n = Some (Inr (indexToCell_direct m n))"
    using v n0 n1 t by (rule indexToCell_eq_direct)
  also have "indexToCell_direct m n = \<lparr>cell_i = ii, cell_j = jj, cell_k = kk\<rparr>"
    unfolding l(3) using v rj rk l(1,2) by (rule direct_flatIndex)
  finally show ?thesis using that x y z n0 n1 by blast
qed

subsection \<open>One wrap step reaches every cell\<close>

lemma mod_wrap_down:
  fixes x R :: int
  assumes "0 < R" "R \<le> x"
  shows "x mod R + R \<le> x"
proof -
  have "x mod R = (x - R) mod R" by simp
  also have "\<dots> \<le> x - R" using assms by (intro zmod_le_nonneg_dividend) simp
  finally show ?thesis by simp
qed

lemma mod_wrap_up:
  fixes x R :: int
  assumes "0 < R" "x < 0"
  shows "x \<le> x mod R - R"
proof -
  have e: "x mod R = (x + R) mod R" by simp
  show ?thesis
  proof (cases "0 \<le> x + R")
    case True
    then have "(x + R) mod R = x + R" using assms by (intro mod_pos_pos_trivial) simp_all
    with e show ?thesis by simp
  next
    case False
    moreover have "0 \<le> x mod R" using assms(1) by simp
    ultimately show ?thesis by linarith
  qed
qed

lemma survivors_cover:
  assumes R: "0 < repetitions m ! a" and c: "0 \<le> c" "c < repetitions m ! a"
    and d: "- s \<le> d" "d \<le> s"
    and t: "0 \<le> wrap_full m a (c + d)" "wrap_full m a (c + d) < repetitions m ! a"
  shows "wrap_full m a (c + d) \<in> set (survivors m a c s)"
proof -
  let ?R = "repetitions m ! a"
  let ?t = "wrap_full m a (c + d)"
  have "\<exists>x. c - s \<le> x \<and> x \<le> c + s \<and> candidate m a x = Some ?t"
  proof (cases "periodic m ! a")
    case False
    then have "?t = c + d" by (simp add: wrap_full_def)
    moreover from this t False have "candidate m a (c + d) = Some (c + d)"
      by (simp add: candidate_def wrap_once_def)
    ultimately show ?thesis using d by (intro exI [of _ "c + d"]) simp
  next
    case True
    then have tm: "?t = (c + d) mod ?R" by (simp add: wrap_full_def)
    consider "c + d < 0" | "0 \<le> c + d" "c + d < ?R" | "?R \<le> c + d" by linarith
    then show ?thesis
    proof cases
      case 1
      have lo: "c + d \<le> ?t - ?R" unfolding tm using R 1 by (rule mod_wrap_up)
      have neg: "?t - ?R < 0" using t(2) by simp
      have "candidate m a (?t - ?R) = Some ?t"
        using True neg t by (simp add: candidate_def wrap_once_def)
      then show ?thesis using lo neg c d by (intro exI [of _ "?t - ?R"]) simp
    next
      case 2
      then have "?t = c + d" unfolding tm by (intro mod_pos_pos_trivial)
      moreover from this 2 True have "candidate m a (c + d) = Some (c + d)"
        by (simp add: candidate_def wrap_once_def)
      ultimately show ?thesis using d by (intro exI [of _ "c + d"]) simp
    next
      case 3
      have hi: "?t + ?R \<le> c + d" unfolding tm using R 3 by (rule mod_wrap_down)
      have big: "?R \<le> ?t + ?R" using t(1) by simp
      have "candidate m a (?t + ?R) = Some ?t"
        using True big t R by (simp add: candidate_def wrap_once_def)
      then show ?thesis using hi big c d by (intro exI [of _ "?t + ?R"]) simp
    qed
  qed
  then show ?thesis by (simp add: set_survivors)
qed

lemma wrap_axis_periodic:
  assumes "valid_map m" "a < 3" "totalSites m \<le> INT_MAX" "INT_MIN \<le> x" "x \<le> INT_MAX"
    and "periodic m ! a"
  shows "wrap_axis m a x =
     Inr (if x < 0 then x + repetitions m ! a
          else if repetitions m ! a \<le> x then x - repetitions m ! a else x)"
  using assms(6) by (simp add: wrap_axis_valid [OF assms(1-5)] wrap_once_def)

text \<open>
  Conversely, a coordinate that passes the tests is the full wrap of its candidate: after
  one step a value within \<open>[0, R)\<close> is the remainder.
\<close>

lemma candidate_is_full_wrap:
  assumes R: "0 < repetitions m ! a" and c: "candidate m a x = Some y"
  shows "y = wrap_full m a x"
proof (cases "periodic m ! a")
  case False
  with c show ?thesis by (auto simp: candidate_def wrap_once_def wrap_full_def Let_def split: if_splits)
next
  case True
  let ?R = "repetitions m ! a"
  from c have y: "0 \<le> y" "y < ?R" by (auto simp: candidate_def Let_def split: if_splits)
  from c True have "y = x + ?R \<or> y = x - ?R \<or> y = x"
    by (auto simp: candidate_def wrap_once_def Let_def split: if_splits)
  then have "y mod ?R = x mod ?R"
  proof (elim disjE)
    assume "y = x + ?R" then show ?thesis by simp
  next
    assume "y = x - ?R" then show ?thesis by simp
  next
    assume "y = x" then show ?thesis by simp
  qed
  moreover have "y mod ?R = y" using y by (intro mod_pos_pos_trivial)
  ultimately show ?thesis using True by (simp add: wrap_full_def)
qed

subsection \<open>Sorting and compaction\<close>



lemma collect_loop_result:
  assumes v: "valid_map m"
    and size: "27 * n_basis m \<le> INT_MAX" and far: "totalSites m + 1 \<le> INT_MAX"
  shows "buffer_fits m g \<Longrightarrow> \<forall>x\<in>set xs. 0 \<le> x \<and> x < totalSites m \<Longrightarrow>
         \<exists>g'. collect_loop m xs acc g =
                 Some (Inr (acc @ concat (map (\<lambda>x. enumeration m (indexToCell_direct m x) 1) xs),
                            g')) \<and>
              buffer_fits m g'"
proof (induction xs arbitrary: acc g)
  case Nil
  then show ?case by simp
next
  case (Cons x xs)
  from Cons.prems(2) have x0: "0 \<le> x" "x < totalSites m"
    and rest: "\<forall>y\<in>set xs. 0 \<le> y \<and> y < totalSites m" by simp_all
  have sz: "(2 * 1 + 1) ^ 3 * n_basis m \<le> INT_MAX" using size by simp
  obtain g1 where g1: "neighbourIndices m x 1 g =
        Some (Inr (enumeration m (indexToCell_direct m x) 1, g1))" "buffer_fits m g1"
    using neighbourIndices_result [OF v Cons.prems(1) x0 _ sz far] by auto
  obtain g2 where "collect_loop m xs (acc @ enumeration m (indexToCell_direct m x) 1) g1 =
        Some (Inr ((acc @ enumeration m (indexToCell_direct m x) 1) @
                   concat (map (\<lambda>x. enumeration m (indexToCell_direct m x) 1) xs), g2))"
      "buffer_fits m g2"
    using Cons.IH [OF g1(2) rest] by blast
  then show ?case using g1(1) by (simp add: default_shells_def)
qed

lemma supersetNeighbourIndices_result:
  assumes "valid_map m" "27 * n_basis m \<le> INT_MAX" "totalSites m + 1 \<le> INT_MAX"
    "buffer_fits m g" "\<forall>x\<in>set xs. 0 \<le> x \<and> x < totalSites m"
  shows "\<exists>g'. supersetNeighbourIndices m xs g =
           Some (Inr (unique (sort (concat (map (\<lambda>x. enumeration m (indexToCell_direct m x) 1) xs))),
                      g')) \<and> buffer_fits m g'"
proof -
  obtain g' where "collect_loop m xs [] g =
      Some (Inr ([] @ concat (map (\<lambda>x. enumeration m (indexToCell_direct m x) 1) xs), g'))"
    "buffer_fits m g'"
    using collect_loop_result [OF assms] by blast
  then show ?thesis by (simp add: supersetNeighbourIndices_def)
qed

subsection \<open>The size of the shared buffer\<close>

text \<open>
  The claims are stated for states in which the shared buffer has the size that the
  constructor of the map gave it. The constructor establishes this and every operation
  of the map keeps it; only the constructor of another map, with another basis count,
  changes it.
\<close>

lemma LatticeMap_establishes_fit:
  assumes "LatticeMap nb reps per g = Inr (m, g')"
  shows "buffer_fits m g'"
  using assms by (auto simp: LatticeMap_def resize_def buffer_fits_def split: if_splits)

lemma fill_loop_length: "fill_loop l n tmp3 buf = Inr buf' \<Longrightarrow> length buf' = length buf"
proof (induction l n tmp3 buf rule: fill_loop.induct)
  case (1 l n tmp3 buf)
  from "1.prems" show ?case
    by (subst (asm) fill_loop.simps) (auto split: if_splits dest: "1.IH")
qed

lemma indicesFromCell_keeps_fit:
  assumes "buffer_fits m g" "indicesFromCell m i j k g = Inr (r, g')"
  shows "buffer_fits m g'"
  using assms
  by (auto simp: indicesFromCell_def and_then_def Let_def buffer_fits_def
      split: sum.splits dest: fill_loop_length)

lemma neighbourIndices_keeps_fit:
  assumes "valid_map m" "buffer_fits m g" "0 \<le> index" "index < totalSites m" "0 \<le> shells"
    and "(2 * shells + 1) ^ 3 * n_basis m \<le> INT_MAX" "totalSites m + shells \<le> INT_MAX"
    and "neighbourIndices m index shells g = Some (Inr (ns, g'))"
  shows "buffer_fits m g'"
  using neighbourIndices_result [OF assms(1-7)] assms(8) by auto

lemma supersetNeighbourIndices_keeps_fit:
  assumes "valid_map m" "27 * n_basis m \<le> INT_MAX" "totalSites m + 1 \<le> INT_MAX"
    "buffer_fits m g" "\<forall>x\<in>set xs. 0 \<le> x \<and> x < totalSites m"
    and "supersetNeighbourIndices m xs g = Some (Inr (res, g'))"
  shows "buffer_fits m g'"
  using supersetNeighbourIndices_result [OF assms(1-5)] assms(6) by auto

subsection \<open>The own cell, and the cells of full wraparound\<close>

lemma n_basis_le_total:
  assumes v: "valid_map m"
  shows "n_basis m \<le> totalSites m"
proof -
  define nb where "nb = n_basis m"
  define Ra where "Ra = repetitions m ! 0"
  define Rb where "Rb = repetitions m ! 1"
  define Rc where "Rc = repetitions m ! 2"
  have pos: "1 \<le> nb" "1 \<le> Ra" "1 \<le> Rb" "1 \<le> Rc"
    using v by (simp_all add: valid_map_def nb_def Ra_def Rb_def Rc_def)
  have "1 \<le> Ra * Rb" using pos le_mult_ge1 [of Ra Rb] by linarith
  then have "1 \<le> Ra * Rb * Rc" using pos le_mult_ge1 [of "Ra * Rb" Rc] by linarith
  then have "nb \<le> nb * (Ra * Rb * Rc)" using pos by (intro le_mult_ge1) simp_all
  then show ?thesis
    by (simp add: totalSites_def nb_def Ra_def Rb_def Rc_def mult.commute)
qed

lemma recompose_cell:
  fixes Rb Rc cl :: int
  assumes "0 < Rb"
  shows "(cl div (Rb * Rc) * Rb + cl div Rc mod Rb) * Rc + cl mod Rc = cl"
proof -
  have "cl div (Rc * Rb) = cl div Rc div Rb"
    using assms by (intro zdiv_zmult2_eq) simp
  then have "cl div (Rb * Rc) * Rb + cl div Rc mod Rb = cl div Rc"
    by (simp add: mult.commute)
  then show ?thesis by simp
qed

text \<open>The cell that the direct decode gives for \<open>index\<close> is the block of \<open>index\<close>.\<close>

lemma own_cell_indices:
  assumes v: "valid_map m"
  shows "cell_indices m (cell_i (indexToCell_direct m index))
           (cell_j (indexToCell_direct m index)) (cell_k (indexToCell_direct m index)) =
         map (\<lambda>l. index div n_basis m * n_basis m + int l) [0..<nat (n_basis m)]"
proof -
  have "0 < repetitions m ! 1" using v by (simp add: valid_map_def)
  from recompose_cell [OF this, of "index div n_basis m" "repetitions m ! 2"]
  show ?thesis
    by (simp add: cell_indices_def flatIndex_def indexToCell_direct_def Let_def)
qed

lemma index_in_own_cell:
  assumes "0 < nb"
  shows "index \<in> set (map (\<lambda>l. index div nb * nb + int l) [0..<nat nb])"
proof -
  have "0 \<le> index mod nb" "index mod nb < nb" using assms by simp_all
  then have "nat (index mod nb) < nat nb"
    "index = index div nb * nb + int (nat (index mod nb))" by simp_all
  then show ?thesis by (auto intro!: image_eqI [where x = "nat (index mod nb)"])
qed

text \<open>Every index of the enumeration lies in a cell that full wraparound reaches.\<close>

lemma enumeration_full_wrap:
  assumes v: "valid_map m" and n: "n \<in> set (enumeration m cell s)"
  obtains di dj dk where
    "- s \<le> di" "di \<le> s" "- s \<le> dj" "dj \<le> s" "- s \<le> dk" "dk \<le> s"
    "0 \<le> wrap_full m 0 (cell_i cell + di)" "wrap_full m 0 (cell_i cell + di) < repetitions m ! 0"
    "0 \<le> wrap_full m 1 (cell_j cell + dj)" "wrap_full m 1 (cell_j cell + dj) < repetitions m ! 1"
    "0 \<le> wrap_full m 2 (cell_k cell + dk)" "wrap_full m 2 (cell_k cell + dk) < repetitions m ! 2"
    "n \<in> set (cell_indices m (wrap_full m 0 (cell_i cell + di))
                (wrap_full m 1 (cell_j cell + dj)) (wrap_full m 2 (cell_k cell + dk)))"
proof -
  from n obtain ii jj kk x y z where
      x: "cell_i cell - s \<le> x" "x \<le> cell_i cell + s" "candidate m 0 x = Some ii"
    and y: "cell_j cell - s \<le> y" "y \<le> cell_j cell + s" "candidate m 1 y = Some jj"
    and z: "cell_k cell - s \<le> z" "z \<le> cell_k cell + s" "candidate m 2 z = Some kk"
    and c: "n \<in> set (cell_indices m ii jj kk)"
    unfolding set_enumeration set_survivors by blast
  have ei: "ii = wrap_full m 0 (cell_i cell + (x - cell_i cell))"
    using candidate_is_full_wrap [OF rep_pos [OF v] x(3)] by simp
  have ej: "jj = wrap_full m 1 (cell_j cell + (y - cell_j cell))"
    using candidate_is_full_wrap [OF rep_pos [OF v] y(3)] by simp
  have ek: "kk = wrap_full m 2 (cell_k cell + (z - cell_k cell))"
    using candidate_is_full_wrap [OF rep_pos [OF v] z(3)] by simp
  note ri = candidate_SomeD(1,2) [OF x(3)] and rj = candidate_SomeD(1,2) [OF y(3)]
    and rk = candidate_SomeD(1,2) [OF z(3)]
  show ?thesis
  proof (rule that [of "x - cell_i cell" "y - cell_j cell" "z - cell_k cell"])
    show "- s \<le> x - cell_i cell" "x - cell_i cell \<le> s" using x(1,2) by simp_all
    show "- s \<le> y - cell_j cell" "y - cell_j cell \<le> s" using y(1,2) by simp_all
    show "- s \<le> z - cell_k cell" "z - cell_k cell \<le> s" using z(1,2) by simp_all
    show "0 \<le> wrap_full m 0 (cell_i cell + (x - cell_i cell))"
      "wrap_full m 0 (cell_i cell + (x - cell_i cell)) < repetitions m ! 0"
      using ri unfolding ei [symmetric] by simp_all
    show "0 \<le> wrap_full m 1 (cell_j cell + (y - cell_j cell))"
      "wrap_full m 1 (cell_j cell + (y - cell_j cell)) < repetitions m ! 1"
      using rj unfolding ej [symmetric] by simp_all
    show "0 \<le> wrap_full m 2 (cell_k cell + (z - cell_k cell))"
      "wrap_full m 2 (cell_k cell + (z - cell_k cell)) < repetitions m ! 2"
      using rk unfolding ek [symmetric] by simp_all
    show "n \<in> set (cell_indices m (wrap_full m 0 (cell_i cell + (x - cell_i cell)))
                (wrap_full m 1 (cell_j cell + (y - cell_j cell)))
                (wrap_full m 2 (cell_k cell + (z - cell_k cell))))"
      using c unfolding ei [symmetric] ej [symmetric] ek [symmetric] .
  qed
qed


subsection \<open>Loops whose bounds may have wrapped\<close>

text \<open>
  For a shell radius so large that a loop bound leaves the range of \<open>int\<close>, the loops are
  not proved to stop. Whatever they return, the invariant \<open>sites_state\<close> holds of it.
\<close>

lemma i32_range: "INT_MIN \<le> i32 x \<and> i32 x \<le> INT_MAX"
  unfolding i32_def INT_MIN_def INT_MAX_def
  using pos_mod_bound [of 4294967296 "x + 2147483648"] pos_mod_sign [of 4294967296 "x + 2147483648"]
  by linarith

lemma i32_le: "INT_MIN \<le> x \<Longrightarrow> i32 x \<le> x"
  unfolding i32_def INT_MIN_def
  using zmod_le_nonneg_dividend [of "x + 2147483648" 4294967296] by linarith

lemma for_loop_preserves:
  fixes body :: "int \<Rightarrow> 's \<Rightarrow> (error + 's) option" and I :: "'s \<Rightarrow> bool"
  assumes body: "\<And>x s s'. INT_MIN \<le> x \<Longrightarrow> x \<le> INT_MAX \<Longrightarrow> I s \<Longrightarrow> body x s = Some (Inr s') \<Longrightarrow> I s'"
    and run: "for_loop lo hi body s = Some (Inr s')"
    and rng: "INT_MIN \<le> lo" "lo \<le> INT_MAX" and I: "I s"
  shows "I s'"
proof -
  let ?P = "\<lambda>x (h::int) b (st::'s) (r::error + 's).
     b = body \<longrightarrow> INT_MIN \<le> x \<longrightarrow> x \<le> INT_MAX \<longrightarrow> I st \<longrightarrow> (\<forall>t. r = Inr t \<longrightarrow> I t)"
  have "?P lo hi body s (Inr s')"
  proof (rule for_loop.raw_induct [where P = ?P and xa = "(((lo, hi), body), s)" and y = "Inr s'",
        unfolded prod.case])
    show "for_loop lo hi body s = Some (Inr s')" by (rule run)
  next
    fix f :: "int \<Rightarrow> int \<Rightarrow> (int \<Rightarrow> 's \<Rightarrow> (error + 's) option) \<Rightarrow> 's \<Rightarrow> (error + 's) option"
    fix x h b st r
    assume ih: "\<And>x h b st r. f x h b st = Some r \<Longrightarrow> ?P x h b st r"
      and eq: "(if x \<le> h
                then case b x st of None \<Rightarrow> None | Some (Inl e) \<Rightarrow> Some (Inl e)
                     | Some (Inr s') \<Rightarrow> f (i32 (x + 1)) h b s'
                else Some (Inr st)) = Some r"
    show "?P x h b st r"
    proof (intro impI allI)
      fix t
      assume b: "b = body" and x: "INT_MIN \<le> x" "x \<le> INT_MAX" and i: "I st" and r: "r = Inr t"
      show "I t"
      proof (cases "x \<le> h")
        case False
        with eq r i show ?thesis by simp
      next
        case True
        with eq r b obtain s1 where s1: "body x st = Some (Inr s1)"
          "f (i32 (x + 1)) h body s1 = Some (Inr t)"
          by (auto split: option.splits sum.splits)
        have "I s1" using x i s1(1) by (rule body)
        with ih [OF s1(2)] i32_range [of "x + 1"] show ?thesis by simp
      qed
    qed
  qed
  with rng I show ?thesis by simp
qed

lemma cell_indices_sites:
  assumes v: "valid_map m"
    and r: "0 \<le> ii" "ii < repetitions m ! 0" "0 \<le> jj" "jj < repetitions m ! 1"
      "0 \<le> kk" "kk < repetitions m ! 2"
  shows "list_all (\<lambda>n. 0 \<le> n \<and> n < totalSites m) (cell_indices m ii jj kk)"
proof -
  have "0 \<le> n \<and> n < totalSites m" if "n \<in> set (cell_indices m ii jj kk)" for n
  proof -
    from that obtain l where l: "0 \<le> l" "l < n_basis m" "n = flatIndex m ii jj kk l"
      unfolding in_cell_indices by blast
    show ?thesis unfolding l(3) using flatIndex_range [OF v r l(1,2)] by simp
  qed
  then show ?thesis unfolding list_all_iff by blast
qed

lemma copy_cell_keeps:
  assumes v: "valid_map m" and t: "totalSites m \<le> INT_MAX"
    and r: "0 \<le> ii" "ii < repetitions m ! 0" "0 \<le> jj" "jj < repetitions m ! 1"
      "0 \<le> kk" "kk < repetitions m ! 2"
    and N: "int N \<le> INT_MAX"
    and J: "sites_state m N s" and c: "copy_cell m ii jj kk s = Inr s'"
  shows "sites_state m N s'"
proof (cases "counter s + n_basis m \<le> int N")
  case True
  have wf: "wf_state m N s" using J by (simp add: sites_state_def)
  obtain s1 where s1: "copy_cell m ii jj kk s = Inr s1" "wf_state m N s1"
      "written s1 = written s @ cell_indices m ii jj kk" "counter s1 = counter s + n_basis m"
    using copy_cell_appends [OF v t r wf True N] by blast
  from s1(1) c have e: "s' = s1" by simp
  show ?thesis
    using J s1(2,3,4) cell_indices_sites [OF v r] unfolding e sites_state_def by simp
next
  case False
  let ?src = "cell_indices m ii jj kk"
  have wf: "wf_state m N s" using J by (simp add: sites_state_def)
  have nb: "0 < n_basis m" using v by (simp add: valid_map_def)
  have len: "length (neighbours s) = N" and c0: "0 \<le> counter s" and fits: "buffer_fits m (glob s)"
    using wf by (simp_all add: wf_state_def)
  have e: "indicesFromCell m ii jj kk (glob s) =
      Inr (Ref_tmp_cell_indices, (glob s)\<lparr>tmp_cell_indices := ?src\<rparr>)"
    using v fits t r by (rule indicesFromCell_fits)
  have "length (neighbours s) < nat (counter s) + nat (n_basis m)"
    using False c0 nb len by linarith
  then have "memcpy (neighbours s) (counter s) ?src (n_basis m) = Inl OutOfBounds"
    by (simp add: memcpy_def)
  with e have "copy_cell m ii jj kk s = Inl OutOfBounds"
    by (simp add: copy_cell_def)
  with c show ?thesis by simp
qed

lemma k_body_keeps:
  assumes v: "valid_map m" and t: "totalSites m \<le> INT_MAX"
    and r: "0 \<le> ii" "ii < repetitions m ! 0" "0 \<le> jj" "jj < repetitions m ! 1"
    and x: "INT_MIN \<le> k" "k \<le> INT_MAX"
    and N: "int N \<le> INT_MAX"
    and J: "sites_state m N s" and c: "k_body m ii jj k s = Inr s'"
  shows "sites_state m N s'"
proof -
  let ?kk = "wrap_once (periodic m ! 2) (repetitions m ! 2) k"
  have w: "wrap_axis m 2 k = Inr ?kk" using v _ t x by (rule wrap_axis_valid) simp
  have b: "within_bounds m 2 ?kk = Inr (0 \<le> ?kk \<and> ?kk < repetitions m ! 2)"
    using v by (rule within_bounds_valid) simp
  show ?thesis
  proof (cases "0 \<le> ?kk \<and> ?kk < repetitions m ! 2")
    case True
    with c have "copy_cell m ii jj ?kk s = Inr s'" by (simp add: k_body_def w b)
    with v t r show ?thesis using True N J by (intro copy_cell_keeps [of m ii jj ?kk N s s']) simp_all
  next
    case False
    with c have "s' = s" by (simp add: k_body_def w b)
    with J show ?thesis by simp
  qed
qed

lemma j_body_keeps:
  assumes v: "valid_map m" and t: "totalSites m \<le> INT_MAX"
    and r: "0 \<le> ii" "ii < repetitions m ! 0"
    and x: "INT_MIN \<le> j" "j \<le> INT_MAX"
    and N: "int N \<le> INT_MAX"
    and J: "sites_state m N s" and c: "j_body m cell shells ii j s = Some (Inr s')"
  shows "sites_state m N s'"
proof -
  define jj where "jj = wrap_once (periodic m ! 1) (repetitions m ! 1) j"
  define ok where "ok \<longleftrightarrow> 0 \<le> jj \<and> jj < repetitions m ! 1"
  have w: "wrap_axis m 1 j = Inr jj"
    unfolding jj_def using v _ t x by (rule wrap_axis_valid) simp
  have b: "within_bounds m 1 jj = Inr ok"
    unfolding ok_def using v by (rule within_bounds_valid) simp
  have unf: "j_body m cell shells ii j s =
      (if ok then for_loop (i32 (cell_k cell - shells)) (i32 (cell_k cell + shells))
                    (\<lambda>k s. Some (k_body m ii jj k s)) s
       else Some (Inr s))"
    unfolding j_body_def w then_do_Inr b ..
  show ?thesis
  proof (cases ok)
    case True
    then have rj: "0 \<le> jj" "jj < repetitions m ! 1" by (simp_all add: ok_def)
    from c True have run: "for_loop (i32 (cell_k cell - shells)) (i32 (cell_k cell + shells))
        (\<lambda>k s. Some (k_body m ii jj k s)) s = Some (Inr s')"
      unfolding unf by simp
    show ?thesis
    proof (rule for_loop_preserves [where I = "sites_state m N", OF _ run _ _ J])
      fix k s1 s2
      assume a: "INT_MIN \<le> k" "k \<le> INT_MAX" "sites_state m N s1"
        "Some (k_body m ii jj k s1) = Some (Inr s2)"
      from a(4) have e: "k_body m ii jj k s1 = Inr s2" by simp
      show "sites_state m N s2" using v t r rj a(1,2) N a(3) e by (rule k_body_keeps)
    qed (simp_all add: i32_range)
  next
    case False
    with c have "s' = s" unfolding unf by simp
    with J show ?thesis by simp
  qed
qed

lemma i_body_keeps:
  assumes v: "valid_map m" and t: "totalSites m \<le> INT_MAX"
    and x: "INT_MIN \<le> i" "i \<le> INT_MAX"
    and N: "int N \<le> INT_MAX"
    and J: "sites_state m N s" and c: "i_body m cell shells i s = Some (Inr s')"
  shows "sites_state m N s'"
proof -
  define ii where "ii = wrap_once (periodic m ! 0) (repetitions m ! 0) i"
  define ok where "ok \<longleftrightarrow> 0 \<le> ii \<and> ii < repetitions m ! 0"
  have w: "wrap_axis m 0 i = Inr ii"
    unfolding ii_def using v _ t x by (rule wrap_axis_valid) simp
  have b: "within_bounds m 0 ii = Inr ok"
    unfolding ok_def using v by (rule within_bounds_valid) simp
  have unf: "i_body m cell shells i s =
      (if ok then for_loop (i32 (cell_j cell - shells)) (i32 (cell_j cell + shells))
                    (j_body m cell shells ii) s
       else Some (Inr s))"
    unfolding i_body_def w then_do_Inr b ..
  show ?thesis
  proof (cases ok)
    case True
    then have ri: "0 \<le> ii" "ii < repetitions m ! 0" by (simp_all add: ok_def)
    from c True have run: "for_loop (i32 (cell_j cell - shells)) (i32 (cell_j cell + shells))
        (j_body m cell shells ii) s = Some (Inr s')"
      unfolding unf by simp
    show ?thesis
    proof (rule for_loop_preserves [where I = "sites_state m N", OF _ run _ _ J])
      fix j s1 s2
      assume a: "INT_MIN \<le> j" "j \<le> INT_MAX" "sites_state m N s1"
        "j_body m cell shells ii j s1 = Some (Inr s2)"
      show "sites_state m N s2" using v t ri a(1,2) N a(3,4) by (rule j_body_keeps)
    qed (simp_all add: i32_range)
  next
    case False
    with c have "s' = s" unfolding unf by simp
    with J show ?thesis by simp
  qed
qed

text \<open>
  Whatever \<open>neighbourIndices\<close> returns for the index of a site: indices of sites, their
  number a multiple of \<open>n_basis_\<close> and at most the size \<open>n_neighbours\<close>, which is then the
  product computed in \<open>int\<close>.
\<close>

lemma neighbourIndices_sites:
  assumes v: "valid_map m" and t: "totalSites m \<le> INT_MAX" and fits: "buffer_fits m g"
    and idx: "0 \<le> index" "index < totalSites m"
    and run: "neighbourIndices m index shells g = Some (Inr (ns, g'))"
  shows "n_basis m dvd int (length ns)"
    and "int (length ns) \<le> i32 (i32 (2 * shells) + 1) ^ 3 * n_basis m"
    and "list_all (\<lambda>n. 0 \<le> n \<and> n < totalSites m) ns"
    and "buffer_fits m g'"
proof -
  let ?c = "indexToCell_direct m index"
  let ?p = "i32 (i32 (2 * shells) + 1) ^ 3 * n_basis m"
  let ?n = "double_to_int ?p"
  let ?N = "nat ?n"
  let ?init = "\<lparr>neighbours = replicate ?N 0, counter = 0, glob = g\<rparr>"
  have d: "indexToCell m index = Some (Inr ?c)"
    using v idx t by (rule indexToCell_eq_direct)
  have n0: "0 \<le> ?n"
  proof (rule ccontr)
    assume "\<not> 0 \<le> ?n"
    then have "resize [] ?n = Inl AllocFailure" by (simp add: resize_def)
    then have "neighbourIndices m index shells g = Some (Inl AllocFailure)"
      by (simp add: neighbourIndices_def d Let_def)
    with run show False by simp
  qed
  have p: "?n = ?p" "?p \<le> INT_MAX"
    using n0 by (auto simp: double_to_int_def INT_MIN_def split: if_splits)
  have rs: "resize [] ?n = Inr (replicate ?N 0)" using n0 by (simp add: resize_def)
  have first: "0 < ?N"
  proof (rule ccontr)
    assume "\<not> 0 < ?N"
    then have "at (replicate ?N (0::int)) 0 = Inl OutOfBounds" by (simp add: at_def)
    then have "neighbourIndices m index shells g = Some (Inl OutOfBounds)"
      by (simp add: neighbourIndices_def d Let_def rs)
    with run show False by simp
  qed
  then have at0: "at (replicate ?N (0::int)) 0 = Inr 0" by (simp add: at_def)
  have unf: "neighbourIndices m index shells g =
      then_do (for_loop (i32 (cell_i ?c - shells)) (i32 (cell_i ?c + shells))
                 (i_body m ?c shells) ?init) (\<lambda>s.
        then_do (Some (resize (neighbours s) (counter s))) (\<lambda>res. Some (Inr (res, glob s))))"
    by (simp add: neighbourIndices_def d Let_def rs at0)
  from run obtain st where st: "for_loop (i32 (cell_i ?c - shells)) (i32 (cell_i ?c + shells))
        (i_body m ?c shells) ?init = Some (Inr st)"
      and fin: "resize (neighbours st) (counter st) = Inr ns" and g': "g' = glob st"
    unfolding unf by (auto simp: then_do_def split: option.splits sum.splits)
  have N: "int ?N \<le> INT_MAX" using n0 p by simp
  have J0: "sites_state m ?N ?init"
    using fits by (simp add: sites_state_def wf_state_def written_def)
  have J: "sites_state m ?N st"
  proof (rule for_loop_preserves [where I = "sites_state m ?N", OF _ st _ _ J0])
    fix i s1 s2
    assume a: "INT_MIN \<le> i" "i \<le> INT_MAX" "sites_state m ?N s1"
      "i_body m ?c shells i s1 = Some (Inr s2)"
    show "sites_state m ?N s2" using v t a(1,2) N a(3,4) by (rule i_body_keeps)
  qed (simp_all add: i32_range)
  then have wf: "length (neighbours st) = ?N" "0 \<le> counter st" "counter st \<le> int ?N"
      "buffer_fits m (glob st)" and dv: "n_basis m dvd counter st"
      and all: "list_all (\<lambda>n. 0 \<le> n \<and> n < totalSites m) (written st)"
    by (simp_all add: sites_state_def wf_state_def)
  have le: "nat (counter st) \<le> length (neighbours st)" using wf(1,2,3) by linarith
  have "resize (neighbours st) (counter st) = Inr (take (nat (counter st)) (neighbours st))"
    using wf(2) le by (simp add: resize_def)
  with fin have ns: "ns = written st" by (simp add: written_def)
  have "length (written st) = nat (counter st)" using le by (simp add: written_def)
  with wf(2) have len: "int (length ns) = counter st" unfolding ns by simp
  show "n_basis m dvd int (length ns)" using dv len by simp
  show "int (length ns) \<le> ?p" using len wf(3) n0 p(1) by simp
  show "list_all (\<lambda>n. 0 \<le> n \<and> n < totalSites m) ns" using all ns by simp
  show "buffer_fits m g'" using wf(4) g' by simp
qed

lemma neighbours_size_bound:
  assumes nb: "0 < n_basis m" and s: "0 \<le> shells"
    and p: "0 \<le> i32 (i32 (2 * shells) + 1) ^ 3 * n_basis m"
  shows "i32 (i32 (2 * shells) + 1) ^ 3 * n_basis m \<le> (2 * shells + 1) ^ 3 * n_basis m"
proof -
  let ?w = "i32 (i32 (2 * shells) + 1)"
  have a: "i32 (2 * shells) \<le> 2 * shells"
    using s by (intro i32_le) (simp add: INT_MIN_def)
  have "INT_MIN \<le> i32 (2 * shells) + 1"
    using i32_range [of "2 * shells"] by simp
  then have "?w \<le> i32 (2 * shells) + 1" by (rule i32_le)
  with a have le: "?w \<le> 2 * shells + 1" by simp
  have w0: "0 \<le> ?w"
  proof (rule ccontr)
    assume "\<not> 0 \<le> ?w"
    then have "?w ^ 3 < 0" by (simp add: power_less_zero_eq)
    with nb have "?w ^ 3 * n_basis m < 0" by (simp add: mult_neg_pos)
    with p show False by simp
  qed
  have "?w ^ 3 \<le> (2 * shells + 1) ^ 3" using le w0 by (rule power_mono)
  with nb show ?thesis by (simp add: mult_right_mono)
qed

text \<open>
  On an axis that is not periodic a candidate outside \<open>[0, R)\<close> is skipped, whatever its
  value.
\<close>

lemma wrap_axis_non_periodic:
  assumes "valid_map m" "a < 3" "\<not> periodic m ! a"
  shows "wrap_axis m a x = Inr x"
  using assms by (simp add: wrap_axis_def valid_map_def)

lemma within_bounds_outside:
  assumes "valid_map m" "a < 3" "x < 0 \<or> repetitions m ! a \<le> x"
  shows "within_bounds m a x = Inr False"
  using assms by (auto simp: within_bounds_valid)

lemma body_skips_non_periodic:
  assumes v: "valid_map m"
  shows "\<not> periodic m ! 0 \<Longrightarrow> x < 0 \<or> repetitions m ! 0 \<le> x \<Longrightarrow>
           i_body m cell s x st = Some (Inr st)"
    and "\<not> periodic m ! 1 \<Longrightarrow> x < 0 \<or> repetitions m ! 1 \<le> x \<Longrightarrow>
           j_body m cell s ii x st = Some (Inr st)"
    and "\<not> periodic m ! 2 \<Longrightarrow> x < 0 \<or> repetitions m ! 2 \<le> x \<Longrightarrow>
           k_body m ii jj x st = Inr st"
proof -
  show "i_body m cell s x st = Some (Inr st)"
    if p: "\<not> periodic m ! 0" and o: "x < 0 \<or> repetitions m ! 0 \<le> x"
  proof -
    have w: "wrap_axis m 0 x = Inr x" using v _ p by (rule wrap_axis_non_periodic) simp
    have b: "within_bounds m 0 x = Inr False" using v _ o by (rule within_bounds_outside) simp
    show ?thesis unfolding i_body_def w then_do_Inr b by simp
  qed
  show "j_body m cell s ii x st = Some (Inr st)"
    if p: "\<not> periodic m ! 1" and o: "x < 0 \<or> repetitions m ! 1 \<le> x"
  proof -
    have w: "wrap_axis m 1 x = Inr x" using v _ p by (rule wrap_axis_non_periodic) simp
    have b: "within_bounds m 1 x = Inr False" using v _ o by (rule within_bounds_outside) simp
    show ?thesis unfolding j_body_def w then_do_Inr b by simp
  qed
  show "k_body m ii jj x st = Inr st"
    if p: "\<not> periodic m ! 2" and o: "x < 0 \<or> repetitions m ! 2 \<le> x"
  proof -
    have w: "wrap_axis m 2 x = Inr x" using v _ p by (rule wrap_axis_non_periodic) simp
    have b: "within_bounds m 2 x = Inr False" using v _ o by (rule within_bounds_outside) simp
    show ?thesis unfolding k_body_def w and_then_Inr b by simp
  qed
qed

text \<open>
  On a periodic axis a candidate more than one repetition count away from \<open>[0, R)\<close> is
  still outside after the single step.
\<close>

lemma candidate_periodic_outside:
  assumes "periodic m ! a" and "0 < repetitions m ! a"
    and "x < - (repetitions m ! a) \<or> 2 * repetitions m ! a \<le> x"
  shows "candidate m a x = None"
  using assms by (auto simp: candidate_def wrap_once_def Let_def)
subsection \<open>Claims\<close>

text \<open>
  The maps of the claims are valid maps whose site indices are all values of \<open>int\<close>,
  \<open>totalSites \<le> INT_MAX\<close>. Beyond that bound the arithmetic of the decoder and of the
  encoder wraps, and nothing is claimed. Where a claim involves the encoder, the state is
  one in which the shared buffer has the \<open>basisCount\<close> elements that the constructor of
  the map gave it (\<open>buffer_fits\<close>).
\<close>

text \<open>
  C2. The iterative decode loop is equivalent to the direct arithmetic decode: on a valid
  map with \<open>totalSites \<le> INT_MAX\<close>, for every index in \<open>[0, totalSites)\<close>,
  \<open>indexToCell\<close> stops and returns exactly the cell \<open>(i, j, k)\<close> with
  \<open>cellLinear = index div basisCount\<close>, \<open>k = cellLinear mod Rc\<close>,
  \<open>j = (cellLinear div Rc) mod Rb\<close> and \<open>i = cellLinear div (Rb * Rc)\<close>.
\<close>

theorem indexToCell_refines_direct:
  assumes "valid_map m" and "totalSites m \<le> INT_MAX"
    and "0 \<le> index" and "index < totalSites m"
  shows "indexToCell m index = Some (Inr (indexToCell_direct m index))"
  using assms(1,3,4,2) by (rule indexToCell_eq_direct)

theorem indexToCell_refines_direct_witness:
  "valid_map \<lparr>n_basis = 2, repetitions = [3, 2, 2], periodic = [True, False, False]\<rparr> \<and>
   totalSites \<lparr>n_basis = 2, repetitions = [3, 2, 2], periodic = [True, False, False]\<rparr> \<le> INT_MAX \<and>
   (0::int) \<le> 7 \<and>
   7 < totalSites \<lparr>n_basis = 2, repetitions = [3, 2, 2], periodic = [True, False, False]\<rparr> \<and>
   indexToCell \<lparr>n_basis = 2, repetitions = [3, 2, 2], periodic = [True, False, False]\<rparr> 7
     = Some (Inr \<lparr>cell_i = 0, cell_j = 1, cell_k = 1\<rparr>)"
  using indexToCell_refines_direct
    [of "\<lparr>n_basis = 2, repetitions = [3, 2, 2], periodic = [True, False, False]\<rparr>" 7]
  by (simp add: valid_map_def totalSites_def indexToCell_direct_def INT_MAX_def)

text \<open>
  C3. Encoder mapping law: on a valid map with \<open>totalSites \<le> INT_MAX\<close> whose shared buffer
  has \<open>basisCount\<close> elements, for every cell coordinate with \<open>0 \<le> i < Ra\<close>, \<open>0 \<le> j < Rb\<close>,
  \<open>0 \<le> k < Rc\<close> the vector that \<open>indicesFromCell\<close> returns has exactly \<open>basisCount\<close>
  values, the \<open>l\<close>-th being \<open>((i*Rb + j)*Rc + k)*basisCount + l\<close>, in strictly increasing
  order; and this mapping is a bijection between the valid tuples \<open>(i, j, k, l)\<close> and
  \<open>[0, totalSites)\<close>.
\<close>

theorem indicesFromCell_mapping_law:
  assumes "valid_map m" and "totalSites m \<le> INT_MAX" and "buffer_fits m g"
    and "0 \<le> i" "i < repetitions m ! 0"
    and "0 \<le> j" "j < repetitions m ! 1"
    and "0 \<le> k" "k < repetitions m ! 2"
  shows "(\<exists>r g'. indicesFromCell m i j k g = Inr (r, g') \<and>
            int (length (deref g' r)) = n_basis m \<and>
            (\<forall>l<nat (n_basis m).
               deref g' r ! l =
                 ((i * repetitions m ! 1 + j) * repetitions m ! 2 + k) * n_basis m + int l) \<and>
            sorted_wrt (<) (deref g' r)) \<and>
         bij_betw (\<lambda>(i, j, k, l). ((i * repetitions m ! 1 + j) * repetitions m ! 2 + k) * n_basis m + l)
           ({0..<repetitions m ! 0} \<times> {0..<repetitions m ! 1} \<times> {0..<repetitions m ! 2} \<times>
            {0..<n_basis m})
           {0..<totalSites m}"
proof -
  have nb: "0 \<le> n_basis m" using assms(1) by (simp add: valid_map_def)
  have "indicesFromCell m i j k g =
          Inr (Ref_tmp_cell_indices, g\<lparr>tmp_cell_indices := cell_indices m i j k\<rparr>)"
    using assms(1,3,2,4-9) by (rule indicesFromCell_fits)
  moreover have "int (length (cell_indices m i j k)) = n_basis m"
    using nb by (simp add: length_cell_indices)
  moreover have "\<forall>l<nat (n_basis m). cell_indices m i j k ! l =
      ((i * repetitions m ! 1 + j) * repetitions m ! 2 + k) * n_basis m + int l"
    by (simp add: nth_cell_indices flatIndex_def)
  ultimately have first: "\<exists>r g'. indicesFromCell m i j k g = Inr (r, g') \<and>
            int (length (deref g' r)) = n_basis m \<and>
            (\<forall>l<nat (n_basis m).
               deref g' r ! l =
                 ((i * repetitions m ! 1 + j) * repetitions m ! 2 + k) * n_basis m + int l) \<and>
            sorted_wrt (<) (deref g' r)"
    using sorted_cell_indices [of m i j k] by simp
  have "bij_betw (\<lambda>(i, j, k, l). flatIndex m i j k l)
           ({0..<repetitions m ! 0} \<times> {0..<repetitions m ! 1} \<times> {0..<repetitions m ! 2} \<times>
            {0..<n_basis m})
           {0..<totalSites m}"
    using assms(1) by (rule flatIndex_bij)
  then have second: "bij_betw (\<lambda>(i, j, k, l). ((i * repetitions m ! 1 + j) * repetitions m ! 2 + k) * n_basis m + l)
           ({0..<repetitions m ! 0} \<times> {0..<repetitions m ! 1} \<times> {0..<repetitions m ! 2} \<times>
            {0..<n_basis m})
           {0..<totalSites m}"
    by (simp add: flatIndex_def)
  from first second show ?thesis by (rule conjI)
qed

theorem indicesFromCell_mapping_law_witness:
  "valid_map \<lparr>n_basis = 2, repetitions = [3, 2, 2], periodic = [True, False, False]\<rparr> \<and>
   totalSites \<lparr>n_basis = 2, repetitions = [3, 2, 2], periodic = [True, False, False]\<rparr> \<le> INT_MAX \<and>
   buffer_fits \<lparr>n_basis = 2, repetitions = [3, 2, 2], periodic = [True, False, False]\<rparr>
     \<lparr>tmp_cell_indices = [0, 0]\<rparr> \<and>
   indicesFromCell \<lparr>n_basis = 2, repetitions = [3, 2, 2], periodic = [True, False, False]\<rparr>
     1 1 0 \<lparr>tmp_cell_indices = [0, 0]\<rparr>
     = Inr (Ref_tmp_cell_indices, \<lparr>tmp_cell_indices = [12, 13]\<rparr>) \<and>
   bij_betw (\<lambda>(i, j, k, l). ((i * 2 + j) * 2 + k) * 2 + l)
     ({0..<3} \<times> {0..<2} \<times> {0..<2} \<times> {0..<2}) {0..<(24::int)}"
proof -
  let ?m = "\<lparr>n_basis = 2, repetitions = [3, 2, 2], periodic = [True, False, False]\<rparr>"
  let ?g = "\<lparr>tmp_cell_indices = [0, 0]\<rparr>"
  have v: "valid_map ?m" by (simp add: valid_map_def)
  have t: "totalSites ?m \<le> INT_MAX" by (simp add: totalSites_def INT_MAX_def)
  have b: "buffer_fits ?m ?g" by (simp add: buffer_fits_def)
  have e: "indicesFromCell ?m 1 1 0 ?g = Inr (Ref_tmp_cell_indices, \<lparr>tmp_cell_indices = [12, 13]\<rparr>)"
    by code_simp
  have "bij_betw (\<lambda>(i, j, k, l). ((i * 2 + j) * 2 + k) * 2 + l)
     ({0..<3} \<times> {0..<2} \<times> {0..<2} \<times> {0..<2}) {0..<(24::int)}"
    using indicesFromCell_mapping_law [OF v t b, of 1 1 0] by (simp add: totalSites_def)
  with v t b e show ?thesis by simp
qed

text \<open>
  C1. Round trip: on a valid map with \<open>totalSites \<le> INT_MAX\<close>, for every index in
  \<open>[0, totalSites)\<close>, \<open>indexToCell\<close> returns a cell, and the vector that \<open>indicesFromCell\<close>
  returns for this cell holds \<open>index\<close> at position \<open>index mod basisCount\<close>.
\<close>

theorem round_trip:
  assumes "valid_map m" and "totalSites m \<le> INT_MAX" and "buffer_fits m g"
    and "0 \<le> index" and "index < totalSites m"
  shows "\<exists>c r g'. indexToCell m index = Some (Inr c) \<and>
           indicesFromCell m (cell_i c) (cell_j c) (cell_k c) g = Inr (r, g') \<and>
           nat (index mod n_basis m) < length (deref g' r) \<and>
           deref g' r ! nat (index mod n_basis m) = index"
proof -
  let ?c = "indexToCell_direct m index"
  have pos: "0 < n_basis m" "0 < repetitions m ! 1" "0 < repetitions m ! 2"
    using assms(1) by (simp_all add: valid_map_def)
  have d: "indexToCell m index = Some (Inr ?c)"
    using assms(1,4,5,2) by (rule indexToCell_eq_direct)
  have e: "indicesFromCell m (cell_i ?c) (cell_j ?c) (cell_k ?c) g =
          Inr (Ref_tmp_cell_indices,
               g\<lparr>tmp_cell_indices := cell_indices m (cell_i ?c) (cell_j ?c) (cell_k ?c)\<rparr>)"
    using assms(1,3,2) direct_in_range [OF assms(1,4,5)] by (rule indicesFromCell_fits)
  have l: "nat (index mod n_basis m) < nat (n_basis m)"
    using pos(1) by (simp add: nat_less_iff)
  have "flatIndex m (cell_i ?c) (cell_j ?c) (cell_k ?c) (index mod n_basis m) = index"
    unfolding flatIndex_def indexToCell_direct_def Let_def
    using encode_decode [OF pos(2,3), of index "n_basis m"] by simp
  then have "cell_indices m (cell_i ?c) (cell_j ?c) (cell_k ?c) ! nat (index mod n_basis m) = index"
    using l pos(1) by (simp add: nth_cell_indices)
  with d e l show ?thesis by (simp add: length_cell_indices)
qed

theorem round_trip_witness:
  "valid_map \<lparr>n_basis = 2, repetitions = [3, 2, 2], periodic = [True, False, False]\<rparr> \<and>
   totalSites \<lparr>n_basis = 2, repetitions = [3, 2, 2], periodic = [True, False, False]\<rparr> \<le> INT_MAX \<and>
   buffer_fits \<lparr>n_basis = 2, repetitions = [3, 2, 2], periodic = [True, False, False]\<rparr>
     \<lparr>tmp_cell_indices = [0, 0]\<rparr> \<and> (0::int) \<le> 7 \<and>
   7 < totalSites \<lparr>n_basis = 2, repetitions = [3, 2, 2], periodic = [True, False, False]\<rparr> \<and>
   (\<exists>c r g'.
      indexToCell \<lparr>n_basis = 2, repetitions = [3, 2, 2], periodic = [True, False, False]\<rparr> 7
        = Some (Inr c) \<and>
      indicesFromCell \<lparr>n_basis = 2, repetitions = [3, 2, 2], periodic = [True, False, False]\<rparr>
        (cell_i c) (cell_j c) (cell_k c) \<lparr>tmp_cell_indices = [0, 0]\<rparr> = Inr (r, g') \<and>
      deref g' r ! 1 = 7)"
proof -
  let ?m = "\<lparr>n_basis = 2, repetitions = [3, 2, 2], periodic = [True, False, False]\<rparr>"
  let ?g = "\<lparr>tmp_cell_indices = [0, 0]\<rparr>"
  have v: "valid_map ?m" by (simp add: valid_map_def)
  have m: "totalSites ?m \<le> INT_MAX" by (simp add: totalSites_def INT_MAX_def)
  have b: "buffer_fits ?m ?g" by (simp add: buffer_fits_def)
  have t: "7 < totalSites ?m" by (simp add: totalSites_def)
  have z: "(0::int) \<le> 7" by simp
  have n: "nat (7 mod n_basis ?m) = 1" by simp
  show ?thesis using v m b t round_trip [OF v m b z t] unfolding n by auto
qed

text \<open>
  C7 as stated fails: the vector that \<open>indicesFromCell\<close> returns is the shared buffer. The
  value seen through the reference of a first call (\<open>[0]\<close>) is \<open>[1]\<close> after a second call for
  another cell, and a constructor call changes the buffer as well.
\<close>

theorem shared_buffer_counterexample:
  "indicesFromCell \<lparr>n_basis = 1, repetitions = [2, 1, 1], periodic = [False, False, False]\<rparr>
      0 0 0 \<lparr>tmp_cell_indices = [0]\<rparr>
     = Inr (Ref_tmp_cell_indices, \<lparr>tmp_cell_indices = [0]\<rparr>) \<and>
   indicesFromCell \<lparr>n_basis = 1, repetitions = [2, 1, 1], periodic = [False, False, False]\<rparr>
      1 0 0 \<lparr>tmp_cell_indices = [0]\<rparr>
     = Inr (Ref_tmp_cell_indices, \<lparr>tmp_cell_indices = [1]\<rparr>) \<and>
   deref \<lparr>tmp_cell_indices = [1]\<rparr> Ref_tmp_cell_indices
     \<noteq> deref \<lparr>tmp_cell_indices = [0]\<rparr> Ref_tmp_cell_indices \<and>
   LatticeMap 2 [2, 1, 1] [False, False, False] \<lparr>tmp_cell_indices = [1]\<rparr>
     = Inr (\<lparr>n_basis = 2, repetitions = [2, 1, 1], periodic = [False, False, False]\<rparr>,
            \<lparr>tmp_cell_indices = [1, 0]\<rparr>)"
  by code_simp

text \<open>
  C7, amended. \<open>indicesFromCell\<close> writes its result into the one buffer shared by all calls
  and returns a reference to it: on a valid map with \<open>totalSites \<le> INT_MAX\<close> whose buffer
  has \<open>basisCount\<close> elements, for a cell of the grid, the state after the call is the
  state before it with the buffer replaced by the \<open>basisCount\<close> indices of the cell,
  whatever the buffer held, and the buffer still has \<open>basisCount\<close> elements.
  Constructing the map resizes the shared buffer to \<open>basisCount\<close> elements and changes
  nothing else.
\<close>

theorem shared_buffer_overwritten:
  assumes "valid_map m" and "totalSites m \<le> INT_MAX" and "buffer_fits m g"
    and "0 \<le> i" "i < repetitions m ! 0"
    and "0 \<le> j" "j < repetitions m ! 1"
    and "0 \<le> k" "k < repetitions m ! 2"
  shows "(\<exists>g'. indicesFromCell m i j k g = Inr (Ref_tmp_cell_indices, g') \<and>
            g' = g\<lparr>tmp_cell_indices :=
                    map (\<lambda>l. ((i * repetitions m ! 1 + j) * repetitions m ! 2 + k) * n_basis m +
                              int l) [0..<nat (n_basis m)]\<rparr> \<and>
            deref g' Ref_tmp_cell_indices =
              map (\<lambda>l. ((i * repetitions m ! 1 + j) * repetitions m ! 2 + k) * n_basis m + int l)
                [0..<nat (n_basis m)] \<and>
            buffer_fits m g') \<and>
         (\<exists>g'. LatticeMap (n_basis m) (repetitions m) (periodic m) g0 = Inr (m, g') \<and>
            g' = g0\<lparr>tmp_cell_indices :=
                     take (nat (n_basis m)) (tmp_cell_indices g0) @
                     replicate (nat (n_basis m) - length (tmp_cell_indices g0)) 0\<rparr> \<and>
            buffer_fits m g')"
proof -
  have nb: "0 < n_basis m" using assms(1) by (simp add: valid_map_def)
  have c: "cell_indices m i j k =
      map (\<lambda>l. ((i * repetitions m ! 1 + j) * repetitions m ! 2 + k) * n_basis m + int l)
        [0..<nat (n_basis m)]"
    by (simp add: cell_indices_def flatIndex_def)
  have "indicesFromCell m i j k g =
          Inr (Ref_tmp_cell_indices, g\<lparr>tmp_cell_indices := cell_indices m i j k\<rparr>)"
    using assms(1,3,2,4-9) by (rule indicesFromCell_fits)
  moreover have "buffer_fits m (g\<lparr>tmp_cell_indices := cell_indices m i j k\<rparr>)"
    using nb by (simp add: buffer_fits_def length_cell_indices)
  ultimately have a: "\<exists>g'. indicesFromCell m i j k g = Inr (Ref_tmp_cell_indices, g') \<and>
            g' = g\<lparr>tmp_cell_indices :=
                    map (\<lambda>l. ((i * repetitions m ! 1 + j) * repetitions m ! 2 + k) * n_basis m +
                              int l) [0..<nat (n_basis m)]\<rparr> \<and>
            deref g' Ref_tmp_cell_indices =
              map (\<lambda>l. ((i * repetitions m ! 1 + j) * repetitions m ! 2 + k) * n_basis m + int l)
                [0..<nat (n_basis m)] \<and>
            buffer_fits m g'"
    unfolding c by simp
  have b: "\<exists>g'. LatticeMap (n_basis m) (repetitions m) (periodic m) g0 = Inr (m, g') \<and>
            g' = g0\<lparr>tmp_cell_indices :=
                     take (nat (n_basis m)) (tmp_cell_indices g0) @
                     replicate (nat (n_basis m) - length (tmp_cell_indices g0)) 0\<rparr> \<and>
            buffer_fits m g'"
    using nb by (auto simp: LatticeMap_def resize_def buffer_fits_def)
  from a b show ?thesis by (rule conjI)
qed

theorem shared_buffer_overwritten_witness:
  "valid_map \<lparr>n_basis = 1, repetitions = [2, 1, 1], periodic = [False, False, False]\<rparr> \<and>
   totalSites \<lparr>n_basis = 1, repetitions = [2, 1, 1], periodic = [False, False, False]\<rparr>
     \<le> INT_MAX \<and>
   buffer_fits \<lparr>n_basis = 1, repetitions = [2, 1, 1], periodic = [False, False, False]\<rparr>
     \<lparr>tmp_cell_indices = [5]\<rparr> \<and>
   indicesFromCell \<lparr>n_basis = 1, repetitions = [2, 1, 1], periodic = [False, False, False]\<rparr>
      1 0 0 \<lparr>tmp_cell_indices = [5]\<rparr>
     = Inr (Ref_tmp_cell_indices, \<lparr>tmp_cell_indices = [1]\<rparr>) \<and>
   LatticeMap 1 [2, 1, 1] [False, False, False] \<lparr>tmp_cell_indices = [7, 8, 9]\<rparr>
     = Inr (\<lparr>n_basis = 1, repetitions = [2, 1, 1], periodic = [False, False, False]\<rparr>,
            \<lparr>tmp_cell_indices = [7]\<rparr>)"
proof -
  let ?m = "\<lparr>n_basis = 1, repetitions = [2, 1, 1], periodic = [False, False, False]\<rparr>"
  have v: "valid_map ?m" by (simp add: valid_map_def)
  have t: "totalSites ?m \<le> INT_MAX" by (simp add: totalSites_def INT_MAX_def)
  have b: "buffer_fits ?m \<lparr>tmp_cell_indices = [5]\<rparr>" by (simp add: buffer_fits_def)
  have r: "(0::int) \<le> 1" "1 < repetitions ?m ! 0" "(0::int) \<le> 0" "0 < repetitions ?m ! 1"
    "0 < repetitions ?m ! 2" by simp_all
  show ?thesis
    using v t b
      shared_buffer_overwritten [OF v t b r(1,2,3,4,3,5), of "\<lparr>tmp_cell_indices = [7, 8, 9]\<rparr>"]
    by simp
qed

text \<open>
  C8 as stated fails: the constructor checks nothing. With \<open>basisCount = 0\<close> it succeeds, and
  so it does with two repetition counts, one of them zero and one negative, and a single
  flag.
\<close>

theorem construction_unvalidated_counterexample:
  "LatticeMap 0 [1, 1, 1] [False, False, False] \<lparr>tmp_cell_indices = []\<rparr>
     = Inr (\<lparr>n_basis = 0, repetitions = [1, 1, 1], periodic = [False, False, False]\<rparr>,
            \<lparr>tmp_cell_indices = []\<rparr>) \<and>
   LatticeMap 1 [0, - 2] [True] \<lparr>tmp_cell_indices = []\<rparr>
     = Inr (\<lparr>n_basis = 1, repetitions = [0, - 2], periodic = [True]\<rparr>,
            \<lparr>tmp_cell_indices = [0]\<rparr>)"
  by code_simp

text \<open>
  C8, amended. Construction validates nothing: for every \<open>basisCount \<ge> 0\<close> and all
  sequences \<open>repetitions\<close> and \<open>periodic\<close>, of any length and with any entries, it succeeds,
  stores the three values as given and resizes the shared buffer to \<open>basisCount\<close> elements.
  Only a negative \<open>basisCount\<close> makes it fail, with the allocation error of the resize.
\<close>

theorem construction_unvalidated:
  "LatticeMap nb reps per g =
     (if nb < 0 then Inl AllocFailure
      else Inr (\<lparr>n_basis = nb, repetitions = reps, periodic = per\<rparr>,
                g\<lparr>tmp_cell_indices :=
                    take (nat nb) (tmp_cell_indices g) @
                    replicate (nat nb - length (tmp_cell_indices g)) 0\<rparr>))"
  by (simp add: LatticeMap_def resize_def)

theorem construction_unvalidated_witness:
  "LatticeMap (- 1) [1, 1, 1] [False, False, False] \<lparr>tmp_cell_indices = [3]\<rparr> = Inl AllocFailure \<and>
   LatticeMap 2 [1, 1, 1] [False, False, False] \<lparr>tmp_cell_indices = [3]\<rparr>
     = Inr (\<lparr>n_basis = 2, repetitions = [1, 1, 1], periodic = [False, False, False]\<rparr>,
            \<lparr>tmp_cell_indices = [3, 0]\<rparr>)"
  using construction_unvalidated [of "- 1" "[1, 1, 1]" "[False, False, False]" "\<lparr>tmp_cell_indices = [3]\<rparr>"]
    construction_unvalidated [of 2 "[1, 1, 1]" "[False, False, False]" "\<lparr>tmp_cell_indices = [3]\<rparr>"]
  by simp

text \<open>
  C9 as stated fails: nothing validates the shell radius and no \<open>InvalidArgument\<close> exists.
  With \<open>shells = -1\<close> the call ends in the allocation of the vector \<open>neighbours\<close>, whose
  size \<open>(2*shells + 1)^3 * basisCount\<close> is negative. With \<open>shells = INT_MIN\<close> the sum
  \<open>2*shells + 1\<close> wraps to \<open>1\<close>, the allocation succeeds, the loops find no cell and the
  call returns the empty list.
\<close>

theorem negative_shells_counterexample:
  "neighbourIndices \<lparr>n_basis = 1, repetitions = [2, 2, 2], periodic = [False, False, False]\<rparr>
     0 (- 1) \<lparr>tmp_cell_indices = [0]\<rparr> = Some (Inl AllocFailure) \<and>
   neighbourIndices \<lparr>n_basis = 1, repetitions = [2, 2, 2], periodic = [False, False, False]\<rparr>
     0 (- 2147483648) \<lparr>tmp_cell_indices = [0]\<rparr>
     = Some (Inr ([], \<lparr>tmp_cell_indices = [0]\<rparr>))"
  by code_simp

text \<open>
  C9, amended. For every negative shell radius \<open>s\<close> from \<open>INT_MIN + 645\<close> on, on a valid
  map with \<open>totalSites \<le> INT_MAX\<close> and an index in \<open>[0, totalSites)\<close>, \<open>neighbourIndices\<close>
  returns no result: the decoder runs, then the allocation of \<open>neighbours\<close> fails, its
  size being negative. The failure is this allocation error, not a validation error.
  (While \<open>2*s\<close> is an \<open>int\<close> the size \<open>(2*s + 1)^3 * basisCount\<close> is negative; below that
  \<open>2*s + 1\<close> wraps to a positive value, of at least \<open>1291\<close>, and the product, too large
  for an \<open>int\<close>, is converted to \<open>INT_MIN\<close>.)
\<close>

theorem negative_shells_allocation_failure:
  assumes "valid_map m" and "totalSites m \<le> INT_MAX"
    and "0 \<le> index" and "index < totalSites m"
    and "INT_MIN + 645 \<le> shells" and "shells < 0"
  shows "neighbourIndices m index shells g = Some (Inl AllocFailure)"
proof (cases "INT_MIN \<le> 2 * shells")
  case True
  with assms(1,3,4,2) show ?thesis using assms(6) by (rule neighbourIndices_negative)
next
  case False
  then have "2 * shells < INT_MIN" by simp
  with assms(1,3,4,2,5) show ?thesis by (rule neighbourIndices_negative_wrapped)
qed

theorem negative_shells_allocation_failure_witness:
  "valid_map \<lparr>n_basis = 2, repetitions = [3, 1, 1], periodic = [True, False, False]\<rparr> \<and>
   totalSites \<lparr>n_basis = 2, repetitions = [3, 1, 1], periodic = [True, False, False]\<rparr> \<le> INT_MAX \<and>
   (0::int) \<le> 4 \<and>
   4 < totalSites \<lparr>n_basis = 2, repetitions = [3, 1, 1], periodic = [True, False, False]\<rparr> \<and>
   INT_MIN + 645 \<le> - 3 \<and>
   (- 3::int) < 0 \<and>
   neighbourIndices \<lparr>n_basis = 2, repetitions = [3, 1, 1], periodic = [True, False, False]\<rparr>
     4 (- 3) \<lparr>tmp_cell_indices = [0, 0]\<rparr> = Some (Inl AllocFailure)"
proof -
  let ?m = "\<lparr>n_basis = 2, repetitions = [3, 1, 1], periodic = [True, False, False]\<rparr>"
  have v: "valid_map ?m" by (simp add: valid_map_def)
  have b: "totalSites ?m \<le> INT_MAX" by (simp add: totalSites_def INT_MAX_def)
  have t: "4 < totalSites ?m" by (simp add: totalSites_def)
  have z: "(0::int) \<le> 4" and n: "(- 3::int) < 0" by simp_all
  have d: "INT_MIN + 645 \<le> - 3" by (simp add: INT_MIN_def)
  from v b z t d n
    negative_shells_allocation_failure [OF v b z t d n, of "\<lparr>tmp_cell_indices = [0, 0]\<rparr>"]
  show ?thesis by simp
qed

text \<open>
  C10. Zero shells: on a valid map with \<open>totalSites \<le> INT_MAX\<close>, for every index in
  \<open>[0, totalSites)\<close>, \<open>neighbourIndices index 0\<close> returns exactly the vector that
  \<open>indicesFromCell\<close> gives for \<open>indexToCell index\<close>, and this is the site's own cell: the
  \<open>basisCount\<close> indices from \<open>(index div basisCount) * basisCount\<close> on, in ascending
  order, \<open>index\<close> among them. For every shell radius \<open>s \<ge> 0\<close>, whatever list
  \<open>neighbourIndices index s\<close> returns has a length that is a multiple of \<open>basisCount\<close> and
  at most \<open>(2*s + 1)^3 * basisCount\<close>; it does return a list when
  \<open>(2*s + 1)^3 * basisCount \<le> INT_MAX\<close> and \<open>totalSites + s \<le> INT_MAX\<close>; and when
  \<open>(2*s + 1)^3 * basisCount\<close> exceeds \<open>INT_MAX\<close>, for a radius \<open>s\<close> that is an \<open>int\<close>, it
  returns none: the allocation of \<open>neighbours\<close> fails.
\<close>

theorem zero_shell_and_length:
  assumes "valid_map m" and "totalSites m \<le> INT_MAX" and "buffer_fits m g"
    and "0 \<le> index" and "index < totalSites m"
  shows "(\<exists>c r g1 g2. indexToCell m index = Some (Inr c) \<and>
            indicesFromCell m (cell_i c) (cell_j c) (cell_k c) g = Inr (r, g1) \<and>
            neighbourIndices m index 0 g = Some (Inr (deref g1 r, g2)) \<and>
            deref g1 r =
              map (\<lambda>l. index div n_basis m * n_basis m + int l) [0..<nat (n_basis m)] \<and>
            index \<in> set (deref g1 r) \<and> sorted_wrt (<) (deref g1 r)) \<and>
         (0 \<le> s \<longrightarrow>
            (\<forall>ns g'. neighbourIndices m index s g = Some (Inr (ns, g')) \<longrightarrow>
               n_basis m dvd int (length ns) \<and>
               int (length ns) \<le> (2 * s + 1) ^ 3 * n_basis m)) \<and>
         (0 \<le> s \<and> (2 * s + 1) ^ 3 * n_basis m \<le> INT_MAX \<and> totalSites m + s \<le> INT_MAX \<longrightarrow>
            (\<exists>ns g'. neighbourIndices m index s g = Some (Inr (ns, g')))) \<and>
         (0 \<le> s \<and> s \<le> INT_MAX \<and> INT_MAX < (2 * s + 1) ^ 3 * n_basis m \<longrightarrow>
            neighbourIndices m index s g = Some (Inl AllocFailure))"
proof -
  let ?c = "indexToCell_direct m index"
  let ?own = "map (\<lambda>l. index div n_basis m * n_basis m + int l) [0..<nat (n_basis m)]"
  have nb: "0 < n_basis m" using assms(1) by (simp add: valid_map_def)
  have d: "indexToCell m index = Some (Inr ?c)"
    using assms(1,4,5,2) by (rule indexToCell_eq_direct)
  note rc = direct_in_range [OF assms(1,4,5)]
  have own: "cell_indices m (cell_i ?c) (cell_j ?c) (cell_k ?c) = ?own"
    using assms(1) by (rule own_cell_indices)
  have e: "indicesFromCell m (cell_i ?c) (cell_j ?c) (cell_k ?c) g =
          Inr (Ref_tmp_cell_indices, g\<lparr>tmp_cell_indices := ?own\<rparr>)"
    using indicesFromCell_fits [OF assms(1,3,2) rc] unfolding own .
  have size0: "(2 * 0 + 1) ^ 3 * n_basis m \<le> INT_MAX"
    using n_basis_le_total [OF assms(1)] assms(2) by simp
  have far0: "totalSites m + 0 \<le> INT_MAX" using assms(2) by simp
  obtain g2 where n0: "neighbourIndices m index 0 g = Some (Inr (enumeration m ?c 0, g2))"
    using neighbourIndices_result [OF assms(1,3,4,5) _ size0 far0] by auto
  have z: "enumeration m ?c 0 = ?own"
    using enumeration_zero [OF rc] own by simp
  have mem: "index \<in> set ?own" using nb by (rule index_in_own_cell)
  have srt: "sorted_wrt (<) ?own"
    using sorted_cell_indices [of m "cell_i ?c" "cell_j ?c" "cell_k ?c"] unfolding own .
  have first: "\<exists>c r g1 g2. indexToCell m index = Some (Inr c) \<and>
            indicesFromCell m (cell_i c) (cell_j c) (cell_k c) g = Inr (r, g1) \<and>
            neighbourIndices m index 0 g = Some (Inr (deref g1 r, g2)) \<and>
            deref g1 r = ?own \<and> index \<in> set (deref g1 r) \<and> sorted_wrt (<) (deref g1 r)"
    using d e n0 z mem srt by simp
  have second: "0 \<le> s \<longrightarrow>
            (\<forall>ns g'. neighbourIndices m index s g = Some (Inr (ns, g')) \<longrightarrow>
               n_basis m dvd int (length ns) \<and>
               int (length ns) \<le> (2 * s + 1) ^ 3 * n_basis m)"
  proof (intro impI allI)
    fix ns g'
    assume s0: "0 \<le> s" and run: "neighbourIndices m index s g = Some (Inr (ns, g'))"
    note r = neighbourIndices_sites [OF assms(1,2,3,4,5) run]
    have "0 \<le> i32 (i32 (2 * s) + 1) ^ 3 * n_basis m"
      using r(2) by (rule order_trans [rotated]) simp
    with nb s0 have "i32 (i32 (2 * s) + 1) ^ 3 * n_basis m \<le> (2 * s + 1) ^ 3 * n_basis m"
      by (rule neighbours_size_bound)
    with r(1,2) show "n_basis m dvd int (length ns) \<and>
        int (length ns) \<le> (2 * s + 1) ^ 3 * n_basis m"
      by simp
  qed
  have third: "0 \<le> s \<and> (2 * s + 1) ^ 3 * n_basis m \<le> INT_MAX \<and> totalSites m + s \<le> INT_MAX \<longrightarrow>
            (\<exists>ns g'. neighbourIndices m index s g = Some (Inr (ns, g')))"
    using neighbourIndices_result [OF assms(1,3,4,5), of s] by blast
  have fourth: "0 \<le> s \<and> s \<le> INT_MAX \<and> INT_MAX < (2 * s + 1) ^ 3 * n_basis m \<longrightarrow>
            neighbourIndices m index s g = Some (Inl AllocFailure)"
    using neighbourIndices_too_large [OF assms(1,4,5,2)] by blast
  from first second third fourth show ?thesis by (intro conjI)
qed

theorem zero_shell_and_length_witness:
  "valid_map \<lparr>n_basis = 2, repetitions = [3, 1, 1], periodic = [True, False, False]\<rparr> \<and>
   totalSites \<lparr>n_basis = 2, repetitions = [3, 1, 1], periodic = [True, False, False]\<rparr> \<le> INT_MAX \<and>
   buffer_fits \<lparr>n_basis = 2, repetitions = [3, 1, 1], periodic = [True, False, False]\<rparr>
     \<lparr>tmp_cell_indices = [0, 0]\<rparr> \<and>
   (0::int) \<le> 3 \<and>
   3 < totalSites \<lparr>n_basis = 2, repetitions = [3, 1, 1], periodic = [True, False, False]\<rparr> \<and>
   (\<exists>g2. neighbourIndices \<lparr>n_basis = 2, repetitions = [3, 1, 1], periodic = [True, False, False]\<rparr>
      3 0 \<lparr>tmp_cell_indices = [0, 0]\<rparr> = Some (Inr ([2, 3], g2))) \<and>
   (0::int) \<le> 1 \<and> (2 * 1 + 1) ^ 3 * n_basis \<lparr>n_basis = 2, repetitions = [3, 1, 1], periodic = [True, False, False]\<rparr> \<le> INT_MAX \<and>
   totalSites \<lparr>n_basis = 2, repetitions = [3, 1, 1], periodic = [True, False, False]\<rparr> + 1 \<le> INT_MAX \<and>
   neighbourIndices \<lparr>n_basis = 2, repetitions = [3, 1, 1], periodic = [True, False, False]\<rparr>
     3 1 \<lparr>tmp_cell_indices = [0, 0]\<rparr>
     = Some (Inr ([0, 1, 2, 3, 4, 5], \<lparr>tmp_cell_indices = [4, 5]\<rparr>)) \<and>
   (2::int) dvd int (length [0, 1, 2, 3, 4, 5 :: int]) \<and>
   int (length [0, 1, 2, 3, 4, 5 :: int]) \<le> (2 * 1 + 1) ^ 3 * 2 \<and>
   (0::int) \<le> 700 \<and> 700 \<le> INT_MAX \<and>
   INT_MAX < (2 * 700 + 1) ^ 3 *
     n_basis \<lparr>n_basis = 2, repetitions = [3, 1, 1], periodic = [True, False, False]\<rparr> \<and>
   neighbourIndices \<lparr>n_basis = 2, repetitions = [3, 1, 1], periodic = [True, False, False]\<rparr>
     3 700 \<lparr>tmp_cell_indices = [0, 0]\<rparr> = Some (Inl AllocFailure)"
proof -
  let ?m = "\<lparr>n_basis = 2, repetitions = [3, 1, 1], periodic = [True, False, False]\<rparr>"
  let ?g = "\<lparr>tmp_cell_indices = [0, 0]\<rparr>"
  have v: "valid_map ?m" by (simp add: valid_map_def)
  have m: "totalSites ?m \<le> INT_MAX" by (simp add: totalSites_def INT_MAX_def)
  have b: "buffer_fits ?m ?g" by (simp add: buffer_fits_def)
  have t: "3 < totalSites ?m" by (simp add: totalSites_def)
  have z: "(0::int) \<le> 3" by simp
  have h: "(0::int) \<le> 1" "(2 * 1 + 1) ^ 3 * n_basis ?m \<le> INT_MAX"
    "totalSites ?m + 1 \<le> INT_MAX"
    by (simp_all add: totalSites_def INT_MAX_def)
  have e: "neighbourIndices ?m 3 1 ?g
      = Some (Inr ([0, 1, 2, 3, 4, 5], \<lparr>tmp_cell_indices = [4, 5]\<rparr>))"
    by code_simp
  note inst = zero_shell_and_length [OF v m b z t, of 1]
  from inst h e have l: "n_basis ?m dvd int (length [0, 1, 2, 3, 4, 5 :: int]) \<and>
      int (length [0, 1, 2, 3, 4, 5 :: int]) \<le> (2 * 1 + 1) ^ 3 * n_basis ?m"
    by auto
  from inst have "\<exists>g2. neighbourIndices ?m 3 0 ?g = Some (Inr ([2, 3], g2))"
    by (auto simp: upt_rec)
  then have own: "\<exists>g2. neighbourIndices ?m 3 0 ?g = Some (Inr ([2, 3], g2))" .
  have k: "(0::int) \<le> 700" "700 \<le> INT_MAX" "INT_MAX < (2 * 700 + 1) ^ 3 * n_basis ?m"
    by (simp_all add: INT_MAX_def)
  from zero_shell_and_length [OF v m b z t, of 700] k
  have big: "neighbourIndices ?m 3 700 ?g = Some (Inl AllocFailure)" by blast
  from l have l2: "(2::int) dvd int (length [0, 1, 2, 3, 4, 5 :: int])"
    "int (length [0, 1, 2, 3, 4, 5 :: int]) \<le> (2 * 1 + 1) ^ 3 * 2" by simp_all
  from v m b z t own h e l2 k big show ?thesis by (intro conjI)
qed


text \<open>
  C5. Non-periodic boundary pruning: on a valid map with \<open>totalSites \<le> INT_MAX\<close>, for an
  index in \<open>[0, totalSites)\<close> and \<open>s \<ge> 0\<close>, a candidate outside \<open>[0, R)\<close> on a non-periodic
  axis is skipped: the body of the loop over that axis returns the state as it got it, so
  the candidate contributes nothing and is not clamped. Consequently every index of
  whatever list \<open>neighbourIndices\<close> returns decodes to a cell whose coordinates lie within
  \<open>[0, R)\<close>. When \<open>(2*s + 1)^3 * basisCount \<le> INT_MAX\<close> and \<open>totalSites + s \<le> INT_MAX\<close>, a
  list is returned, and on a non-periodic axis the coordinates of its cells are within
  \<open>s\<close> of the coordinate of the queried cell. When \<open>(2*s + 1)^3 * basisCount\<close> exceeds
  \<open>INT_MAX\<close>, for a radius \<open>s\<close> that is an \<open>int\<close>, no list is returned: the allocation of
  \<open>neighbours\<close> fails.
\<close>

theorem non_periodic_pruning:
  assumes "valid_map m" and "totalSites m \<le> INT_MAX" and "buffer_fits m g"
    and "0 \<le> index" and "index < totalSites m" and "0 \<le> s"
  shows "(\<forall>cell x st. \<not> periodic m ! 0 \<and> (x < 0 \<or> repetitions m ! 0 \<le> x) \<longrightarrow>
            i_body m cell s x st = Some (Inr st)) \<and>
         (\<forall>cell ii x st. \<not> periodic m ! 1 \<and> (x < 0 \<or> repetitions m ! 1 \<le> x) \<longrightarrow>
            j_body m cell s ii x st = Some (Inr st)) \<and>
         (\<forall>ii jj x st. \<not> periodic m ! 2 \<and> (x < 0 \<or> repetitions m ! 2 \<le> x) \<longrightarrow>
            k_body m ii jj x st = Inr st) \<and>
         (\<forall>ns g'. neighbourIndices m index s g = Some (Inr (ns, g')) \<longrightarrow>
            (\<forall>n\<in>set ns. \<exists>c. indexToCell m n = Some (Inr c) \<and>
               0 \<le> cell_i c \<and> cell_i c < repetitions m ! 0 \<and>
               0 \<le> cell_j c \<and> cell_j c < repetitions m ! 1 \<and>
               0 \<le> cell_k c \<and> cell_k c < repetitions m ! 2)) \<and>
         ((2 * s + 1) ^ 3 * n_basis m \<le> INT_MAX \<and> totalSites m + s \<le> INT_MAX \<longrightarrow>
            (\<exists>ns g' c0. neighbourIndices m index s g = Some (Inr (ns, g')) \<and>
               indexToCell m index = Some (Inr c0) \<and>
               (\<forall>n\<in>set ns. \<exists>c. indexToCell m n = Some (Inr c) \<and>
                  (\<not> periodic m ! 0 \<longrightarrow> cell_i c0 - s \<le> cell_i c \<and> cell_i c \<le> cell_i c0 + s) \<and>
                  (\<not> periodic m ! 1 \<longrightarrow> cell_j c0 - s \<le> cell_j c \<and> cell_j c \<le> cell_j c0 + s) \<and>
                  (\<not> periodic m ! 2 \<longrightarrow> cell_k c0 - s \<le> cell_k c \<and> cell_k c \<le> cell_k c0 + s)))) \<and>
         (s \<le> INT_MAX \<and> INT_MAX < (2 * s + 1) ^ 3 * n_basis m \<longrightarrow>
            neighbourIndices m index s g = Some (Inl AllocFailure))"
proof -
  let ?c0 = "indexToCell_direct m index"
  have a: "\<forall>cell x st. \<not> periodic m ! 0 \<and> (x < 0 \<or> repetitions m ! 0 \<le> x) \<longrightarrow>
            i_body m cell s x st = Some (Inr st)"
    using body_skips_non_periodic(1) [OF assms(1)] by blast
  have b: "\<forall>cell ii x st. \<not> periodic m ! 1 \<and> (x < 0 \<or> repetitions m ! 1 \<le> x) \<longrightarrow>
            j_body m cell s ii x st = Some (Inr st)"
    using body_skips_non_periodic(2) [OF assms(1)] by blast
  have c: "\<forall>ii jj x st. \<not> periodic m ! 2 \<and> (x < 0 \<or> repetitions m ! 2 \<le> x) \<longrightarrow>
            k_body m ii jj x st = Inr st"
    using body_skips_non_periodic(3) [OF assms(1)] by blast
  have d: "\<forall>ns g'. neighbourIndices m index s g = Some (Inr (ns, g')) \<longrightarrow>
            (\<forall>n\<in>set ns. \<exists>c. indexToCell m n = Some (Inr c) \<and>
               0 \<le> cell_i c \<and> cell_i c < repetitions m ! 0 \<and>
               0 \<le> cell_j c \<and> cell_j c < repetitions m ! 1 \<and>
               0 \<le> cell_k c \<and> cell_k c < repetitions m ! 2)"
  proof (intro allI impI ballI)
    fix ns g' n
    assume run: "neighbourIndices m index s g = Some (Inr (ns, g'))" and n: "n \<in> set ns"
    have "list_all (\<lambda>n. 0 \<le> n \<and> n < totalSites m) ns"
      using assms(1,2,3,4,5) run by (rule neighbourIndices_sites(3))
    with n have r: "0 \<le> n" "n < totalSites m" by (simp_all add: list_all_iff)
    have "indexToCell m n = Some (Inr (indexToCell_direct m n))"
      using assms(1) r assms(2) by (rule indexToCell_eq_direct)
    with direct_in_range [OF assms(1) r]
    show "\<exists>c. indexToCell m n = Some (Inr c) \<and>
               0 \<le> cell_i c \<and> cell_i c < repetitions m ! 0 \<and>
               0 \<le> cell_j c \<and> cell_j c < repetitions m ! 1 \<and>
               0 \<le> cell_k c \<and> cell_k c < repetitions m ! 2"
      by simp
  qed
  have e: "(2 * s + 1) ^ 3 * n_basis m \<le> INT_MAX \<and> totalSites m + s \<le> INT_MAX \<longrightarrow>
            (\<exists>ns g' c0. neighbourIndices m index s g = Some (Inr (ns, g')) \<and>
               indexToCell m index = Some (Inr c0) \<and>
               (\<forall>n\<in>set ns. \<exists>c. indexToCell m n = Some (Inr c) \<and>
                  (\<not> periodic m ! 0 \<longrightarrow> cell_i c0 - s \<le> cell_i c \<and> cell_i c \<le> cell_i c0 + s) \<and>
                  (\<not> periodic m ! 1 \<longrightarrow> cell_j c0 - s \<le> cell_j c \<and> cell_j c \<le> cell_j c0 + s) \<and>
                  (\<not> periodic m ! 2 \<longrightarrow> cell_k c0 - s \<le> cell_k c \<and> cell_k c \<le> cell_k c0 + s)))"
  proof (intro impI, elim conjE)
    assume size: "(2 * s + 1) ^ 3 * n_basis m \<le> INT_MAX" and far: "totalSites m + s \<le> INT_MAX"
    obtain g' where r: "neighbourIndices m index s g = Some (Inr (enumeration m ?c0 s, g'))"
      using neighbourIndices_result [OF assms(1,3,4,5,6) size far] by blast
    have d0: "indexToCell m index = Some (Inr ?c0)"
      using assms(1,4,5,2) by (rule indexToCell_eq_direct)
    have near: "\<exists>c. indexToCell m n = Some (Inr c) \<and>
               (\<not> periodic m ! 0 \<longrightarrow> cell_i ?c0 - s \<le> cell_i c \<and> cell_i c \<le> cell_i ?c0 + s) \<and>
               (\<not> periodic m ! 1 \<longrightarrow> cell_j ?c0 - s \<le> cell_j c \<and> cell_j c \<le> cell_j ?c0 + s) \<and>
               (\<not> periodic m ! 2 \<longrightarrow> cell_k ?c0 - s \<le> cell_k c \<and> cell_k c \<le> cell_k ?c0 + s)"
      if "n \<in> set (enumeration m ?c0 s)" for n
    proof -
      from assms(1,2) that obtain x y z ii jj kk where
        x: "cell_i ?c0 - s \<le> x" "x \<le> cell_i ?c0 + s" "candidate m 0 x = Some ii"
        and y: "cell_j ?c0 - s \<le> y" "y \<le> cell_j ?c0 + s" "candidate m 1 y = Some jj"
        and z: "cell_k ?c0 - s \<le> z" "z \<le> cell_k ?c0 + s" "candidate m 2 z = Some kk"
        and n: "indexToCell m n = Some (Inr \<lparr>cell_i = ii, cell_j = jj, cell_k = kk\<rparr>)"
        by (rule enumeration_member)
      show ?thesis
        using n x(1,2) y(1,2) z(1,2) candidate_SomeD(3) [OF x(3)] candidate_SomeD(3) [OF y(3)]
          candidate_SomeD(3) [OF z(3)]
        by (intro exI [of _ "\<lparr>cell_i = ii, cell_j = jj, cell_k = kk\<rparr>"]) simp
    qed
    from r d0 near
    show "\<exists>ns g' c0. neighbourIndices m index s g = Some (Inr (ns, g')) \<and>
               indexToCell m index = Some (Inr c0) \<and>
               (\<forall>n\<in>set ns. \<exists>c. indexToCell m n = Some (Inr c) \<and>
                  (\<not> periodic m ! 0 \<longrightarrow> cell_i c0 - s \<le> cell_i c \<and> cell_i c \<le> cell_i c0 + s) \<and>
                  (\<not> periodic m ! 1 \<longrightarrow> cell_j c0 - s \<le> cell_j c \<and> cell_j c \<le> cell_j c0 + s) \<and>
                  (\<not> periodic m ! 2 \<longrightarrow> cell_k c0 - s \<le> cell_k c \<and> cell_k c \<le> cell_k c0 + s))"
      by blast
  qed
  have f: "s \<le> INT_MAX \<and> INT_MAX < (2 * s + 1) ^ 3 * n_basis m \<longrightarrow>
            neighbourIndices m index s g = Some (Inl AllocFailure)"
    using neighbourIndices_too_large [OF assms(1,4,5,2,6)] by blast
  from a b c d e f show ?thesis by (intro conjI)
qed

theorem non_periodic_pruning_witness:
  "valid_map \<lparr>n_basis = 1, repetitions = [4, 4, 4], periodic = [False, False, False]\<rparr> \<and>
   totalSites \<lparr>n_basis = 1, repetitions = [4, 4, 4], periodic = [False, False, False]\<rparr>
     \<le> INT_MAX \<and>
   buffer_fits \<lparr>n_basis = 1, repetitions = [4, 4, 4], periodic = [False, False, False]\<rparr>
     \<lparr>tmp_cell_indices = [0]\<rparr> \<and>
   (0::int) \<le> 0 \<and>
   0 < totalSites \<lparr>n_basis = 1, repetitions = [4, 4, 4], periodic = [False, False, False]\<rparr> \<and>
   (0::int) \<le> 1 \<and>
   neighbourIndices \<lparr>n_basis = 1, repetitions = [4, 4, 4], periodic = [False, False, False]\<rparr>
     0 1 \<lparr>tmp_cell_indices = [0]\<rparr>
     = Some (Inr ([0, 1, 4, 5, 16, 17, 20, 21], \<lparr>tmp_cell_indices = [21]\<rparr>)) \<and>
   i_body \<lparr>n_basis = 1, repetitions = [4, 4, 4], periodic = [False, False, False]\<rparr>
     \<lparr>cell_i = 0, cell_j = 0, cell_k = 0\<rparr> 1 (- 1)
     \<lparr>neighbours = replicate 27 0, counter = 0, glob = \<lparr>tmp_cell_indices = [0]\<rparr>\<rparr>
     = Some (Inr \<lparr>neighbours = replicate 27 0, counter = 0,
                   glob = \<lparr>tmp_cell_indices = [0]\<rparr>\<rparr>) \<and>
   (\<exists>c. indexToCell \<lparr>n_basis = 1, repetitions = [4, 4, 4], periodic = [False, False, False]\<rparr> 21
          = Some (Inr c) \<and>
        0 \<le> cell_i c \<and> cell_i c < 4 \<and> 0 \<le> cell_j c \<and> cell_j c < 4 \<and>
        0 \<le> cell_k c \<and> cell_k c < 4) \<and>
   (2 * 1 + 1) ^ 3 *
     n_basis \<lparr>n_basis = 1, repetitions = [4, 4, 4], periodic = [False, False, False]\<rparr>
     \<le> INT_MAX \<and>
   totalSites \<lparr>n_basis = 1, repetitions = [4, 4, 4], periodic = [False, False, False]\<rparr> + 1
     \<le> INT_MAX \<and>
   (\<exists>c. indexToCell \<lparr>n_basis = 1, repetitions = [4, 4, 4], periodic = [False, False, False]\<rparr> 21
          = Some (Inr c) \<and>
        cell_i c \<le> 0 + 1 \<and> cell_j c \<le> 0 + 1 \<and> cell_k c \<le> 0 + 1) \<and>
   (0::int) \<le> 700 \<and> 700 \<le> INT_MAX \<and>
   INT_MAX < (2 * 700 + 1) ^ 3 *
     n_basis \<lparr>n_basis = 1, repetitions = [4, 4, 4], periodic = [False, False, False]\<rparr> \<and>
   neighbourIndices \<lparr>n_basis = 1, repetitions = [4, 4, 4], periodic = [False, False, False]\<rparr>
     0 700 \<lparr>tmp_cell_indices = [0]\<rparr> = Some (Inl AllocFailure)"
proof -
  let ?m = "\<lparr>n_basis = 1, repetitions = [4, 4, 4], periodic = [False, False, False]\<rparr>"
  let ?g = "\<lparr>tmp_cell_indices = [0]\<rparr>"
  have v: "valid_map ?m" by (simp add: valid_map_def)
  have m: "totalSites ?m \<le> INT_MAX" by (simp add: totalSites_def INT_MAX_def)
  have b: "buffer_fits ?m ?g" by (simp add: buffer_fits_def)
  have t: "0 < totalSites ?m" by (simp add: totalSites_def)
  have z: "(0::int) \<le> 0" and s: "(0::int) \<le> 1" by simp_all
  have e: "neighbourIndices ?m 0 1 ?g
      = Some (Inr ([0, 1, 4, 5, 16, 17, 20, 21], \<lparr>tmp_cell_indices = [21]\<rparr>))"
    by code_simp
  note inst = non_periodic_pruning [OF v m b z t s]
  from inst have skip: "i_body ?m \<lparr>cell_i = 0, cell_j = 0, cell_k = 0\<rparr> 1 (- 1)
     \<lparr>neighbours = replicate 27 0, counter = 0, glob = ?g\<rparr>
     = Some (Inr \<lparr>neighbours = replicate 27 0, counter = 0, glob = ?g\<rparr>)"
    by simp
  from inst e have "\<forall>n\<in>set [0, 1, 4, 5, 16, 17, 20, 21 :: int].
      \<exists>c. indexToCell ?m n = Some (Inr c) \<and>
        0 \<le> cell_i c \<and> cell_i c < repetitions ?m ! 0 \<and>
        0 \<le> cell_j c \<and> cell_j c < repetitions ?m ! 1 \<and>
        0 \<le> cell_k c \<and> cell_k c < repetitions ?m ! 2"
    by blast
  then have dec: "\<exists>c. indexToCell ?m 21 = Some (Inr c) \<and>
        0 \<le> cell_i c \<and> cell_i c < 4 \<and> 0 \<le> cell_j c \<and> cell_j c < 4 \<and>
        0 \<le> cell_k c \<and> cell_k c < 4"
    by simp
  have h: "(2 * 1 + 1) ^ 3 * n_basis ?m \<le> INT_MAX" "totalSites ?m + 1 \<le> INT_MAX"
    by (simp_all add: totalSites_def INT_MAX_def)
  have c0: "indexToCell ?m 0 = Some (Inr \<lparr>cell_i = 0, cell_j = 0, cell_k = 0\<rparr>)"
    by code_simp
  from inst h e c0 have near: "\<exists>c. indexToCell ?m 21 = Some (Inr c) \<and>
        cell_i c \<le> 0 + 1 \<and> cell_j c \<le> 0 + 1 \<and> cell_k c \<le> 0 + 1"
    by fastforce
  have l: "(0::int) \<le> 700" "700 \<le> INT_MAX" "INT_MAX < (2 * 700 + 1) ^ 3 * n_basis ?m"
    by (simp_all add: INT_MAX_def)
  from non_periodic_pruning [OF v m b z t l(1)] l(2,3)
  have big: "neighbourIndices ?m 0 700 ?g = Some (Inl AllocFailure)" by blast
  from v m b z t s e skip dec h near l big show ?thesis by (intro conjI)
qed

text \<open>
  C4 as stated fails: a candidate on a periodic axis is wrapped by one addition or
  subtraction only. With three repetitions and \<open>s = 4\<close> the candidate \<open>-4\<close> becomes \<open>-1\<close>,
  fails the bounds test and is discarded; the output has eight cells, not nine.
\<close>

theorem full_wrap_counterexample:
  "wrap_axis \<lparr>n_basis = 1, repetitions = [3, 1, 1], periodic = [True, False, False]\<rparr> 0 (- 4)
     = Inr (- 1) \<and>
   within_bounds \<lparr>n_basis = 1, repetitions = [3, 1, 1], periodic = [True, False, False]\<rparr> 0 (- 1)
     = Inr False \<and>
   i_body \<lparr>n_basis = 1, repetitions = [3, 1, 1], periodic = [True, False, False]\<rparr>
     \<lparr>cell_i = 0, cell_j = 0, cell_k = 0\<rparr> 4 (- 4)
     \<lparr>neighbours = replicate 729 0, counter = 0, glob = \<lparr>tmp_cell_indices = [0]\<rparr>\<rparr>
     = Some (Inr \<lparr>neighbours = replicate 729 0, counter = 0,
                   glob = \<lparr>tmp_cell_indices = [0]\<rparr>\<rparr>) \<and>
   neighbourIndices \<lparr>n_basis = 1, repetitions = [3, 1, 1], periodic = [True, False, False]\<rparr>
     0 4 \<lparr>tmp_cell_indices = [0]\<rparr>
     = Some (Inr ([0, 1, 2, 0, 1, 2, 0, 1], \<lparr>tmp_cell_indices = [1]\<rparr>))"
  by code_simp

text \<open>
  C4, amended. On a valid map with \<open>totalSites \<le> INT_MAX\<close>, a candidate on a periodic axis
  is wrapped by at most one addition or subtraction of the repetition count \<open>R\<close>, and a
  candidate below \<open>-R\<close> or from \<open>2*R\<close> on, which that step leaves outside \<open>[0, R)\<close>, is
  discarded: the body of the loop over that axis returns the state as it got it. Even so,
  for an index in \<open>[0, totalSites)\<close> and \<open>s \<ge> 0\<close> with
  \<open>(2*s + 1)^3 * basisCount \<le> INT_MAX\<close> and \<open>totalSites + s \<le> INT_MAX\<close>, \<open>neighbourIndices\<close>
  returns a list with the same elements as full wraparound would give: for all offsets
  \<open>di, dj, dk\<close> in \<open>[-s, s]\<close>, the cell whose coordinate is \<open>(c + d) mod R\<close> on each periodic
  axis and \<open>c + d\<close>, within \<open>[0, R)\<close>, on each other axis has all its \<open>basisCount\<close> indices
  in the list, and every element of the list is an index of such a cell. When
  \<open>(2*s + 1)^3 * basisCount\<close> exceeds \<open>INT_MAX\<close>, for a radius \<open>s\<close> that is an \<open>int\<close>, no list
  is returned: the allocation of \<open>neighbours\<close> fails.
\<close>

theorem single_wrap_covers:
  assumes "valid_map m" and "totalSites m \<le> INT_MAX" and "buffer_fits m g"
    and "0 \<le> index" and "index < totalSites m" and "0 \<le> s"
  shows "(\<forall>a x. a < 3 \<and> periodic m ! a \<and> INT_MIN \<le> x \<and> x \<le> INT_MAX \<longrightarrow>
            wrap_axis m a x =
              Inr (if x < 0 then x + repetitions m ! a
                   else if repetitions m ! a \<le> x then x - repetitions m ! a else x)) \<and>
         (\<forall>cell x st. periodic m ! 0 \<and> INT_MIN \<le> x \<and> x \<le> INT_MAX \<and>
              (x < - (repetitions m ! 0) \<or> 2 * repetitions m ! 0 \<le> x) \<longrightarrow>
            i_body m cell s x st = Some (Inr st)) \<and>
         (\<forall>cell ii x st. periodic m ! 1 \<and> INT_MIN \<le> x \<and> x \<le> INT_MAX \<and>
              (x < - (repetitions m ! 1) \<or> 2 * repetitions m ! 1 \<le> x) \<longrightarrow>
            j_body m cell s ii x st = Some (Inr st)) \<and>
         (\<forall>ii jj x st. periodic m ! 2 \<and> INT_MIN \<le> x \<and> x \<le> INT_MAX \<and>
              (x < - (repetitions m ! 2) \<or> 2 * repetitions m ! 2 \<le> x) \<longrightarrow>
            k_body m ii jj x st = Inr st) \<and>
         ((2 * s + 1) ^ 3 * n_basis m \<le> INT_MAX \<and> totalSites m + s \<le> INT_MAX \<longrightarrow>
            (\<exists>ns g' c0. neighbourIndices m index s g = Some (Inr (ns, g')) \<and>
               indexToCell m index = Some (Inr c0) \<and>
               (\<forall>di dj dk.
                  - s \<le> di \<and> di \<le> s \<and> - s \<le> dj \<and> dj \<le> s \<and> - s \<le> dk \<and> dk \<le> s \<and>
                  0 \<le> wrap_full m 0 (cell_i c0 + di) \<and>
                  wrap_full m 0 (cell_i c0 + di) < repetitions m ! 0 \<and>
                  0 \<le> wrap_full m 1 (cell_j c0 + dj) \<and>
                  wrap_full m 1 (cell_j c0 + dj) < repetitions m ! 1 \<and>
                  0 \<le> wrap_full m 2 (cell_k c0 + dk) \<and>
                  wrap_full m 2 (cell_k c0 + dk) < repetitions m ! 2 \<longrightarrow>
                  (\<exists>r g1. indicesFromCell m (wrap_full m 0 (cell_i c0 + di))
                             (wrap_full m 1 (cell_j c0 + dj)) (wrap_full m 2 (cell_k c0 + dk)) g
                             = Inr (r, g1) \<and>
                           length (deref g1 r) = nat (n_basis m) \<and>
                           set (deref g1 r) \<subseteq> set ns)) \<and>
               (\<forall>n\<in>set ns. \<exists>di dj dk.
                  - s \<le> di \<and> di \<le> s \<and> - s \<le> dj \<and> dj \<le> s \<and> - s \<le> dk \<and> dk \<le> s \<and>
                  0 \<le> wrap_full m 0 (cell_i c0 + di) \<and>
                  wrap_full m 0 (cell_i c0 + di) < repetitions m ! 0 \<and>
                  0 \<le> wrap_full m 1 (cell_j c0 + dj) \<and>
                  wrap_full m 1 (cell_j c0 + dj) < repetitions m ! 1 \<and>
                  0 \<le> wrap_full m 2 (cell_k c0 + dk) \<and>
                  wrap_full m 2 (cell_k c0 + dk) < repetitions m ! 2 \<and>
                  (\<exists>r g1. indicesFromCell m (wrap_full m 0 (cell_i c0 + di))
                             (wrap_full m 1 (cell_j c0 + dj)) (wrap_full m 2 (cell_k c0 + dk)) g
                             = Inr (r, g1) \<and>
                           n \<in> set (deref g1 r))))) \<and>
         (s \<le> INT_MAX \<and> INT_MAX < (2 * s + 1) ^ 3 * n_basis m \<longrightarrow>
            neighbourIndices m index s g = Some (Inl AllocFailure))"
proof -
  let ?c0 = "indexToCell_direct m index"
  note v = assms(1) and t = assms(2) and fits = assms(3)
  have pos: "0 < repetitions m ! 0" "0 < repetitions m ! 1" "0 < repetitions m ! 2"
    using v by (simp_all add: valid_map_def)
  have a: "\<forall>a x. a < 3 \<and> periodic m ! a \<and> INT_MIN \<le> x \<and> x \<le> INT_MAX \<longrightarrow>
            wrap_axis m a x =
              Inr (if x < 0 then x + repetitions m ! a
                   else if repetitions m ! a \<le> x then x - repetitions m ! a else x)"
    using v t by (simp add: wrap_axis_periodic)
  have bi: "\<forall>cell x st. periodic m ! 0 \<and> INT_MIN \<le> x \<and> x \<le> INT_MAX \<and>
              (x < - (repetitions m ! 0) \<or> 2 * repetitions m ! 0 \<le> x) \<longrightarrow>
            i_body m cell s x st = Some (Inr st)"
  proof (intro allI impI, elim conjE)
    fix cell x st
    assume p: "periodic m ! 0" and x: "INT_MIN \<le> x" "x \<le> INT_MAX"
      and o: "x < - (repetitions m ! 0) \<or> 2 * repetitions m ! 0 \<le> x"
    have "candidate m 0 x = None" using p pos(1) o by (rule candidate_periodic_outside)
    then show "i_body m cell s x st = Some (Inr st)" by (rule body_skips(1) [OF v t x])
  qed
  have bj: "\<forall>cell ii x st. periodic m ! 1 \<and> INT_MIN \<le> x \<and> x \<le> INT_MAX \<and>
              (x < - (repetitions m ! 1) \<or> 2 * repetitions m ! 1 \<le> x) \<longrightarrow>
            j_body m cell s ii x st = Some (Inr st)"
  proof (intro allI impI, elim conjE)
    fix cell ii x st
    assume p: "periodic m ! 1" and x: "INT_MIN \<le> x" "x \<le> INT_MAX"
      and o: "x < - (repetitions m ! 1) \<or> 2 * repetitions m ! 1 \<le> x"
    have "candidate m 1 x = None" using p pos(2) o by (rule candidate_periodic_outside)
    then show "j_body m cell s ii x st = Some (Inr st)" by (rule body_skips(2) [OF v t x])
  qed
  have bk: "\<forall>ii jj x st. periodic m ! 2 \<and> INT_MIN \<le> x \<and> x \<le> INT_MAX \<and>
              (x < - (repetitions m ! 2) \<or> 2 * repetitions m ! 2 \<le> x) \<longrightarrow>
            k_body m ii jj x st = Inr st"
  proof (intro allI impI, elim conjE)
    fix ii jj x st
    assume p: "periodic m ! 2" and x: "INT_MIN \<le> x" "x \<le> INT_MAX"
      and o: "x < - (repetitions m ! 2) \<or> 2 * repetitions m ! 2 \<le> x"
    have "candidate m 2 x = None" using p pos(3) o by (rule candidate_periodic_outside)
    then show "k_body m ii jj x st = Inr st" by (rule body_skips(3) [OF v t x])
  qed
  have c: "(2 * s + 1) ^ 3 * n_basis m \<le> INT_MAX \<and> totalSites m + s \<le> INT_MAX \<longrightarrow>
            (\<exists>ns g' c0. neighbourIndices m index s g = Some (Inr (ns, g')) \<and>
               indexToCell m index = Some (Inr c0) \<and>
               (\<forall>di dj dk.
                  - s \<le> di \<and> di \<le> s \<and> - s \<le> dj \<and> dj \<le> s \<and> - s \<le> dk \<and> dk \<le> s \<and>
                  0 \<le> wrap_full m 0 (cell_i c0 + di) \<and>
                  wrap_full m 0 (cell_i c0 + di) < repetitions m ! 0 \<and>
                  0 \<le> wrap_full m 1 (cell_j c0 + dj) \<and>
                  wrap_full m 1 (cell_j c0 + dj) < repetitions m ! 1 \<and>
                  0 \<le> wrap_full m 2 (cell_k c0 + dk) \<and>
                  wrap_full m 2 (cell_k c0 + dk) < repetitions m ! 2 \<longrightarrow>
                  (\<exists>r g1. indicesFromCell m (wrap_full m 0 (cell_i c0 + di))
                             (wrap_full m 1 (cell_j c0 + dj)) (wrap_full m 2 (cell_k c0 + dk)) g
                             = Inr (r, g1) \<and>
                           length (deref g1 r) = nat (n_basis m) \<and>
                           set (deref g1 r) \<subseteq> set ns)) \<and>
               (\<forall>n\<in>set ns. \<exists>di dj dk.
                  - s \<le> di \<and> di \<le> s \<and> - s \<le> dj \<and> dj \<le> s \<and> - s \<le> dk \<and> dk \<le> s \<and>
                  0 \<le> wrap_full m 0 (cell_i c0 + di) \<and>
                  wrap_full m 0 (cell_i c0 + di) < repetitions m ! 0 \<and>
                  0 \<le> wrap_full m 1 (cell_j c0 + dj) \<and>
                  wrap_full m 1 (cell_j c0 + dj) < repetitions m ! 1 \<and>
                  0 \<le> wrap_full m 2 (cell_k c0 + dk) \<and>
                  wrap_full m 2 (cell_k c0 + dk) < repetitions m ! 2 \<and>
                  (\<exists>r g1. indicesFromCell m (wrap_full m 0 (cell_i c0 + di))
                             (wrap_full m 1 (cell_j c0 + dj)) (wrap_full m 2 (cell_k c0 + dk)) g
                             = Inr (r, g1) \<and>
                           n \<in> set (deref g1 r))))"
  proof (intro impI, elim conjE)
    assume size: "(2 * s + 1) ^ 3 * n_basis m \<le> INT_MAX" and far: "totalSites m + s \<le> INT_MAX"
    obtain g' where r: "neighbourIndices m index s g = Some (Inr (enumeration m ?c0 s, g'))"
      using neighbourIndices_result [OF v fits assms(4,5,6) size far] by blast
    have d: "indexToCell m index = Some (Inr ?c0)"
      using v assms(4,5) t by (rule indexToCell_eq_direct)
    note c0 = direct_in_range [OF v assms(4,5)]
    have enc: "indicesFromCell m ti tj tk g =
        Inr (Ref_tmp_cell_indices, g\<lparr>tmp_cell_indices := cell_indices m ti tj tk\<rparr>)"
      if "0 \<le> ti" "ti < repetitions m ! 0" "0 \<le> tj" "tj < repetitions m ! 1"
        "0 \<le> tk" "tk < repetitions m ! 2" for ti tj tk
      using v fits t that by (rule indicesFromCell_fits)
    have cover: "\<exists>r g1. indicesFromCell m (wrap_full m 0 (cell_i ?c0 + di))
                          (wrap_full m 1 (cell_j ?c0 + dj)) (wrap_full m 2 (cell_k ?c0 + dk)) g
                          = Inr (r, g1) \<and>
                        length (deref g1 r) = nat (n_basis m) \<and>
                        set (deref g1 r) \<subseteq> set (enumeration m ?c0 s)"
      if di: "- s \<le> di" "di \<le> s" and dj: "- s \<le> dj" "dj \<le> s" and dk: "- s \<le> dk" "dk \<le> s"
        and ti: "0 \<le> wrap_full m 0 (cell_i ?c0 + di)"
          "wrap_full m 0 (cell_i ?c0 + di) < repetitions m ! 0"
        and tj: "0 \<le> wrap_full m 1 (cell_j ?c0 + dj)"
          "wrap_full m 1 (cell_j ?c0 + dj) < repetitions m ! 1"
        and tk: "0 \<le> wrap_full m 2 (cell_k ?c0 + dk)"
          "wrap_full m 2 (cell_k ?c0 + dk) < repetitions m ! 2"
      for di dj dk
    proof -
      let ?ti = "wrap_full m 0 (cell_i ?c0 + di)"
      let ?tj = "wrap_full m 1 (cell_j ?c0 + dj)"
      let ?tk = "wrap_full m 2 (cell_k ?c0 + dk)"
      have si: "?ti \<in> set (survivors m 0 (cell_i ?c0) s)"
        using pos(1) c0(1,2) di ti by (rule survivors_cover)
      have sj: "?tj \<in> set (survivors m 1 (cell_j ?c0) s)"
        using pos(2) c0(3,4) dj tj by (rule survivors_cover)
      have sk: "?tk \<in> set (survivors m 2 (cell_k ?c0) s)"
        using pos(3) c0(5,6) dk tk by (rule survivors_cover)
      have sub: "set (cell_indices m ?ti ?tj ?tk) \<subseteq> set (enumeration m ?c0 s)"
        unfolding set_enumeration using si sj sk by blast
      from enc [OF ti tj tk] sub show ?thesis by (simp add: length_cell_indices)
    qed
    have inv: "\<exists>di dj dk.
                  - s \<le> di \<and> di \<le> s \<and> - s \<le> dj \<and> dj \<le> s \<and> - s \<le> dk \<and> dk \<le> s \<and>
                  0 \<le> wrap_full m 0 (cell_i ?c0 + di) \<and>
                  wrap_full m 0 (cell_i ?c0 + di) < repetitions m ! 0 \<and>
                  0 \<le> wrap_full m 1 (cell_j ?c0 + dj) \<and>
                  wrap_full m 1 (cell_j ?c0 + dj) < repetitions m ! 1 \<and>
                  0 \<le> wrap_full m 2 (cell_k ?c0 + dk) \<and>
                  wrap_full m 2 (cell_k ?c0 + dk) < repetitions m ! 2 \<and>
                  (\<exists>r g1. indicesFromCell m (wrap_full m 0 (cell_i ?c0 + di))
                             (wrap_full m 1 (cell_j ?c0 + dj)) (wrap_full m 2 (cell_k ?c0 + dk)) g
                             = Inr (r, g1) \<and>
                           n \<in> set (deref g1 r))"
      if n: "n \<in> set (enumeration m ?c0 s)" for n
    proof -
      from v n obtain di dj dk where
        di: "- s \<le> di" "di \<le> s" and dj: "- s \<le> dj" "dj \<le> s" and dk: "- s \<le> dk" "dk \<le> s"
        and ti: "0 \<le> wrap_full m 0 (cell_i ?c0 + di)"
          "wrap_full m 0 (cell_i ?c0 + di) < repetitions m ! 0"
        and tj: "0 \<le> wrap_full m 1 (cell_j ?c0 + dj)"
          "wrap_full m 1 (cell_j ?c0 + dj) < repetitions m ! 1"
        and tk: "0 \<le> wrap_full m 2 (cell_k ?c0 + dk)"
          "wrap_full m 2 (cell_k ?c0 + dk) < repetitions m ! 2"
        and mem: "n \<in> set (cell_indices m (wrap_full m 0 (cell_i ?c0 + di))
                (wrap_full m 1 (cell_j ?c0 + dj)) (wrap_full m 2 (cell_k ?c0 + dk)))"
        by (rule enumeration_full_wrap)
      from enc [OF ti tj tk] mem
      have "\<exists>r g1. indicesFromCell m (wrap_full m 0 (cell_i ?c0 + di))
                             (wrap_full m 1 (cell_j ?c0 + dj)) (wrap_full m 2 (cell_k ?c0 + dk)) g
                             = Inr (r, g1) \<and>
                           n \<in> set (deref g1 r)"
        by simp
      with di dj dk ti tj tk show ?thesis by blast
    qed
    show "\<exists>ns g' c0. neighbourIndices m index s g = Some (Inr (ns, g')) \<and>
               indexToCell m index = Some (Inr c0) \<and>
               (\<forall>di dj dk.
                  - s \<le> di \<and> di \<le> s \<and> - s \<le> dj \<and> dj \<le> s \<and> - s \<le> dk \<and> dk \<le> s \<and>
                  0 \<le> wrap_full m 0 (cell_i c0 + di) \<and>
                  wrap_full m 0 (cell_i c0 + di) < repetitions m ! 0 \<and>
                  0 \<le> wrap_full m 1 (cell_j c0 + dj) \<and>
                  wrap_full m 1 (cell_j c0 + dj) < repetitions m ! 1 \<and>
                  0 \<le> wrap_full m 2 (cell_k c0 + dk) \<and>
                  wrap_full m 2 (cell_k c0 + dk) < repetitions m ! 2 \<longrightarrow>
                  (\<exists>r g1. indicesFromCell m (wrap_full m 0 (cell_i c0 + di))
                             (wrap_full m 1 (cell_j c0 + dj)) (wrap_full m 2 (cell_k c0 + dk)) g
                             = Inr (r, g1) \<and>
                           length (deref g1 r) = nat (n_basis m) \<and>
                           set (deref g1 r) \<subseteq> set ns)) \<and>
               (\<forall>n\<in>set ns. \<exists>di dj dk.
                  - s \<le> di \<and> di \<le> s \<and> - s \<le> dj \<and> dj \<le> s \<and> - s \<le> dk \<and> dk \<le> s \<and>
                  0 \<le> wrap_full m 0 (cell_i c0 + di) \<and>
                  wrap_full m 0 (cell_i c0 + di) < repetitions m ! 0 \<and>
                  0 \<le> wrap_full m 1 (cell_j c0 + dj) \<and>
                  wrap_full m 1 (cell_j c0 + dj) < repetitions m ! 1 \<and>
                  0 \<le> wrap_full m 2 (cell_k c0 + dk) \<and>
                  wrap_full m 2 (cell_k c0 + dk) < repetitions m ! 2 \<and>
                  (\<exists>r g1. indicesFromCell m (wrap_full m 0 (cell_i c0 + di))
                             (wrap_full m 1 (cell_j c0 + dj)) (wrap_full m 2 (cell_k c0 + dk)) g
                             = Inr (r, g1) \<and>
                           n \<in> set (deref g1 r)))"
    proof (intro exI conjI)
      show "neighbourIndices m index s g = Some (Inr (enumeration m ?c0 s, g'))" by (rule r)
      show "indexToCell m index = Some (Inr ?c0)" by (rule d)
    qed (use cover inv in blast)+
  qed
  have e: "s \<le> INT_MAX \<and> INT_MAX < (2 * s + 1) ^ 3 * n_basis m \<longrightarrow>
            neighbourIndices m index s g = Some (Inl AllocFailure)"
    using neighbourIndices_too_large [OF v assms(4,5) t assms(6)] by blast
  from a bi bj bk c e show ?thesis by (intro conjI)
qed

theorem single_wrap_covers_witness:
  "valid_map \<lparr>n_basis = 1, repetitions = [3, 1, 1], periodic = [True, False, False]\<rparr> \<and>
   totalSites \<lparr>n_basis = 1, repetitions = [3, 1, 1], periodic = [True, False, False]\<rparr>
     \<le> INT_MAX \<and>
   buffer_fits \<lparr>n_basis = 1, repetitions = [3, 1, 1], periodic = [True, False, False]\<rparr>
     \<lparr>tmp_cell_indices = [0]\<rparr> \<and>
   (0::int) \<le> 0 \<and>
   0 < totalSites \<lparr>n_basis = 1, repetitions = [3, 1, 1], periodic = [True, False, False]\<rparr> \<and>
   (0::int) \<le> 4 \<and>
   (2 * 4 + 1) ^ 3 *
     n_basis \<lparr>n_basis = 1, repetitions = [3, 1, 1], periodic = [True, False, False]\<rparr>
     \<le> INT_MAX \<and>
   totalSites \<lparr>n_basis = 1, repetitions = [3, 1, 1], periodic = [True, False, False]\<rparr> + 4
     \<le> INT_MAX \<and>
   INT_MIN \<le> - 4 \<and> - 4 \<le> INT_MAX \<and>
   wrap_axis \<lparr>n_basis = 1, repetitions = [3, 1, 1], periodic = [True, False, False]\<rparr> 0 (- 4)
     = Inr (- 1) \<and>
   i_body \<lparr>n_basis = 1, repetitions = [3, 1, 1], periodic = [True, False, False]\<rparr>
     \<lparr>cell_i = 0, cell_j = 0, cell_k = 0\<rparr> 4 (- 4)
     \<lparr>neighbours = replicate 729 0, counter = 0, glob = \<lparr>tmp_cell_indices = [0]\<rparr>\<rparr>
     = Some (Inr \<lparr>neighbours = replicate 729 0, counter = 0,
                   glob = \<lparr>tmp_cell_indices = [0]\<rparr>\<rparr>) \<and>
   neighbourIndices \<lparr>n_basis = 1, repetitions = [3, 1, 1], periodic = [True, False, False]\<rparr>
     0 4 \<lparr>tmp_cell_indices = [0]\<rparr>
     = Some (Inr ([0, 1, 2, 0, 1, 2, 0, 1], \<lparr>tmp_cell_indices = [1]\<rparr>)) \<and>
   wrap_full \<lparr>n_basis = 1, repetitions = [3, 1, 1], periodic = [True, False, False]\<rparr> 0 (0 + - 4)
     = 2 \<and>
   (\<exists>r g1. indicesFromCell \<lparr>n_basis = 1, repetitions = [3, 1, 1], periodic = [True, False, False]\<rparr>
              2 0 0 \<lparr>tmp_cell_indices = [0]\<rparr> = Inr (r, g1) \<and>
            set (deref g1 r) \<subseteq> set [0, 1, 2, 0, 1, 2, 0, 1]) \<and>
   (\<exists>di dj dk r g1. - 4 \<le> di \<and> di \<le> 4 \<and> - 4 \<le> dj \<and> dj \<le> 4 \<and> - 4 \<le> dk \<and> dk \<le> 4 \<and>
      indicesFromCell \<lparr>n_basis = 1, repetitions = [3, 1, 1], periodic = [True, False, False]\<rparr>
        (wrap_full \<lparr>n_basis = 1, repetitions = [3, 1, 1], periodic = [True, False, False]\<rparr>
           0 (0 + di))
        (wrap_full \<lparr>n_basis = 1, repetitions = [3, 1, 1], periodic = [True, False, False]\<rparr>
           1 (0 + dj))
        (wrap_full \<lparr>n_basis = 1, repetitions = [3, 1, 1], periodic = [True, False, False]\<rparr>
           2 (0 + dk))
        \<lparr>tmp_cell_indices = [0]\<rparr> = Inr (r, g1) \<and>
      2 \<in> set (deref g1 r)) \<and>
   (0::int) \<le> 700 \<and> 700 \<le> INT_MAX \<and>
   INT_MAX < (2 * 700 + 1) ^ 3 *
     n_basis \<lparr>n_basis = 1, repetitions = [3, 1, 1], periodic = [True, False, False]\<rparr> \<and>
   neighbourIndices \<lparr>n_basis = 1, repetitions = [3, 1, 1], periodic = [True, False, False]\<rparr>
     0 700 \<lparr>tmp_cell_indices = [0]\<rparr> = Some (Inl AllocFailure)"
proof -
  let ?m = "\<lparr>n_basis = 1, repetitions = [3, 1, 1], periodic = [True, False, False]\<rparr>"
  let ?g = "\<lparr>tmp_cell_indices = [0]\<rparr>"
  let ?st = "\<lparr>neighbours = replicate 729 0, counter = 0, glob = ?g\<rparr>"
  have v: "valid_map ?m" by (simp add: valid_map_def)
  have m: "totalSites ?m \<le> INT_MAX" by (simp add: totalSites_def INT_MAX_def)
  have b: "buffer_fits ?m ?g" by (simp add: buffer_fits_def)
  have t: "0 < totalSites ?m" by (simp add: totalSites_def)
  have z: "(0::int) \<le> 0" and s: "(0::int) \<le> 4" by simp_all
  have h: "(2 * 4 + 1) ^ 3 * n_basis ?m \<le> INT_MAX" "totalSites ?m + 4 \<le> INT_MAX"
    by (simp_all add: totalSites_def INT_MAX_def)
  have x: "INT_MIN \<le> - 4" "- 4 \<le> INT_MAX" by (simp_all add: INT_MIN_def INT_MAX_def)
  have e: "neighbourIndices ?m 0 4 ?g
      = Some (Inr ([0, 1, 2, 0, 1, 2, 0, 1], \<lparr>tmp_cell_indices = [1]\<rparr>))"
    by code_simp
  have c0: "indexToCell ?m 0 = Some (Inr \<lparr>cell_i = 0, cell_j = 0, cell_k = 0\<rparr>)"
    by code_simp
  have w: "wrap_full ?m 0 (0 + - 4) = 2" "wrap_full ?m 1 (0 + 0) = 0" "wrap_full ?m 2 (0 + 0) = 0"
    by (simp_all add: wrap_full_def)
  note inst = single_wrap_covers [OF v m b z t s]
  from inst x have wr: "wrap_axis ?m 0 (- 4) = Inr (- 1)" by simp
  from inst x have skip: "i_body ?m \<lparr>cell_i = 0, cell_j = 0, cell_k = 0\<rparr> 4 (- 4) ?st = Some (Inr ?st)"
    by simp
  from inst h e c0
  have cov: "\<forall>di dj dk.
               - 4 \<le> di \<and> di \<le> 4 \<and> - 4 \<le> dj \<and> dj \<le> 4 \<and> - 4 \<le> dk \<and> dk \<le> 4 \<and>
               0 \<le> wrap_full ?m 0 (0 + di) \<and> wrap_full ?m 0 (0 + di) < 3 \<and>
               0 \<le> wrap_full ?m 1 (0 + dj) \<and> wrap_full ?m 1 (0 + dj) < 1 \<and>
               0 \<le> wrap_full ?m 2 (0 + dk) \<and> wrap_full ?m 2 (0 + dk) < 1 \<longrightarrow>
               (\<exists>r g1. indicesFromCell ?m (wrap_full ?m 0 (0 + di))
                          (wrap_full ?m 1 (0 + dj)) (wrap_full ?m 2 (0 + dk)) ?g
                          = Inr (r, g1) \<and>
                        length (deref g1 r) = nat (n_basis ?m) \<and>
                        set (deref g1 r) \<subseteq> set [0, 1, 2, 0, 1, 2, 0, 1])"
    and mem: "\<forall>n\<in>set [0, 1, 2, 0, 1, 2, 0, 1 :: int]. \<exists>di dj dk.
               - 4 \<le> di \<and> di \<le> 4 \<and> - 4 \<le> dj \<and> dj \<le> 4 \<and> - 4 \<le> dk \<and> dk \<le> 4 \<and>
               0 \<le> wrap_full ?m 0 (0 + di) \<and> wrap_full ?m 0 (0 + di) < 3 \<and>
               0 \<le> wrap_full ?m 1 (0 + dj) \<and> wrap_full ?m 1 (0 + dj) < 1 \<and>
               0 \<le> wrap_full ?m 2 (0 + dk) \<and> wrap_full ?m 2 (0 + dk) < 1 \<and>
               (\<exists>r g1. indicesFromCell ?m (wrap_full ?m 0 (0 + di))
                          (wrap_full ?m 1 (0 + dj)) (wrap_full ?m 2 (0 + dk)) ?g
                          = Inr (r, g1) \<and>
                        n \<in> set (deref g1 r))"
    by simp_all
  from cov [rule_format, of "- 4" 0 0]
  have one: "\<exists>r g1. indicesFromCell ?m 2 0 0 ?g = Inr (r, g1) \<and>
            set (deref g1 r) \<subseteq> set [0, 1, 2, 0, 1, 2, 0, 1]"
    unfolding w by auto
  from mem have two: "\<exists>di dj dk r g1.
      - 4 \<le> di \<and> di \<le> 4 \<and> - 4 \<le> dj \<and> dj \<le> 4 \<and> - 4 \<le> dk \<and> dk \<le> 4 \<and>
      indicesFromCell ?m (wrap_full ?m 0 (0 + di)) (wrap_full ?m 1 (0 + dj))
        (wrap_full ?m 2 (0 + dk)) ?g = Inr (r, g1) \<and>
      2 \<in> set (deref g1 r)"
    by (simp only: list.set ball_simps insert_iff) blast
  have l: "(0::int) \<le> 700" "700 \<le> INT_MAX" "INT_MAX < (2 * 700 + 1) ^ 3 * n_basis ?m"
    by (simp_all add: INT_MAX_def)
  from single_wrap_covers [OF v m b z t l(1)] l(2,3)
  have big: "neighbourIndices ?m 0 700 ?g = Some (Inl AllocFailure)" by blast
  from v m b z t s h x wr skip e w(1) one two l big show ?thesis by (intro conjI)
qed



end
